theory Spec2Isabelle
  imports Complex_Main "HOL-Library.Word"
begin

unbundle bit_operations_syntax

section \<open>Machine numbers\<close>

type_synonym u64 = "64 word"
type_synonym u128 = "128 word"

subsection \<open>Binary64 arithmetic\<close>

text \<open>
  The builder computes table sizes, the average partition size and the number of buckets
  in \<^verbatim>\<open>double\<close>. A finite double is a real number; every operation returns the
  exact result rounded to the nearest double, ties to even (53-bit significand,
  least exponent \<open>-1022\<close>, so subnormals are multiples of \<open>2 powi -1074\<close>).
  Overflow to infinity is not represented: a result of \<open>2 powi 1024\<close> or more is kept as a
  real, and every such value of the builder goes to a conversion to \<^verbatim>\<open>uint64_t\<close>
  that is out of range in either reading. A division by zero (infinity or NaN) is
  written out where the source can reach it.
\<close>

definition binade :: "real \<Rightarrow> int" where
  "binade x = max \<lfloor>log 2 \<bar>x\<bar>\<rfloor> (- 1022)"

definition ulp :: "real \<Rightarrow> real" where
  "ulp x = 2 powi (binade x - 52)"

definition round_half_even :: "real \<Rightarrow> int" where
  "round_half_even q =
     (let f = \<lfloor>q\<rfloor>; d = q - of_int f
      in if d < 1 / 2 then f else if 1 / 2 < d then f + 1 else if even f then f else f + 1)"

definition round_double :: "real \<Rightarrow> real" where
  "round_double x = (if x = 0 then 0 else of_int (round_half_even (x / ulp x)) * ulp x)"

definition d_add :: "real \<Rightarrow> real \<Rightarrow> real" where
  "d_add x y = round_double (x + y)"

definition d_mul :: "real \<Rightarrow> real \<Rightarrow> real" where
  "d_mul x y = round_double (x * y)"

text \<open>Division by a non-zero double; the callers test the divisor.\<close>

definition d_div :: "real \<Rightarrow> real \<Rightarrow> real" where
  "d_div x y = round_double (x / y)"

text \<open>\<^verbatim>\<open>std::ceil\<close> is exact: the ceiling of a double is a double.\<close>

definition d_ceil :: "real \<Rightarrow> real" where
  "d_ceil x = of_int \<lceil>x\<rceil>"

text \<open>Conversion of an unsigned integer (\<^verbatim>\<open>uint64_t\<close>, \<^verbatim>\<open>size_t\<close>) to double.\<close>

definition nat_to_double :: "nat \<Rightarrow> real" where
  "nat_to_double n = round_double (real n)"

definition u64_to_double :: "u64 \<Rightarrow> real" where
  "u64_to_double w = nat_to_double (unat w)"

text \<open>
  Conversion of a double to \<^verbatim>\<open>uint64_t\<close> truncates toward zero; it is undefined
  (\<open>None\<close>) when the truncated value is not representable.
\<close>

definition double_to_u64 :: "real \<Rightarrow> u64 option" where
  "double_to_u64 x =
     (if - 1 < x \<and> x < 2 ^ 64 then Some (word_of_int (if x < 0 then 0 else \<lfloor>x\<rfloor>)) else None)"

section \<open>Data model\<close>

datatype failure =
    assertion_failed
  | invalid_argument string
  | runtime_error string
  | undefined_behaviour
  | terminate_called

record build_configuration =
  c :: real
  alpha :: real
  minimal_output :: bool
  seed :: u64
  num_partitions :: u64
  num_buckets :: u64
  num_threads :: u64
  verbose_output :: bool

text \<open>
  Modelled from the spec: \<^verbatim>\<open>build_timings\<close> (declared in \<^verbatim>\<open>builders/util.hpp\<close>, which is
  not among the sources) has the four durations of the spec's \<open>BuildTimings\<close>, all zero
  in a fresh object.
\<close>

record build_timings =
  partitioning_seconds :: real
  mapping_ordering_seconds :: real
  searching_seconds :: real
  encoding_seconds :: real

definition fresh_timings :: build_timings where
  "fresh_timings =
     \<lparr>partitioning_seconds = 0, mapping_ordering_seconds = 0,
      searching_seconds = 0, encoding_seconds = 0\<rparr>"

text \<open>
  Modelled from the spec: fast-mod (\<^verbatim>\<open>fastmod::computeM_u64\<close>, \<^verbatim>\<open>fastmod::fastmod_u64\<close>,
  not among the sources) is the modulus, computed from a 128-bit reciprocal of the
  divisor that is precomputed once.
\<close>

definition computeM_u64 :: "u64 \<Rightarrow> u128" where
  "computeM_u64 d = (- 1) div ucast d + 1"

definition fastmod_u64 :: "u64 \<Rightarrow> u128 \<Rightarrow> u64 \<Rightarrow> u64" where
  "fastmod_u64 a M d = a mod d"

text \<open>
  Modelled from the spec: \<^verbatim>\<open>uniform_bucketer\<close> (\<^verbatim>\<open>utils/bucketers.hpp\<close>, not among the
  sources) stores \<open>N\<close> and the fast-mod constant of \<open>N\<close>, and
  \<open>bucket(x) = fastmod_u64(x, M, N)\<close>.
\<close>

record uniform_bucketer =
  ub_num_buckets :: u64
  ub_M :: u128

definition uniform_bucketer_init :: "u64 \<Rightarrow> uniform_bucketer" where
  "uniform_bucketer_init n = \<lparr>ub_num_buckets = n, ub_M = computeM_u64 n\<rparr>"

definition uniform_bucket :: "uniform_bucketer \<Rightarrow> u64 \<Rightarrow> u64" where
  "uniform_bucket ub x = fastmod_u64 x (ub_M ub) (ub_num_buckets ub)"

text \<open>
  The single builder \<^verbatim>\<open>internal_memory_builder_single_phf\<close> is not among the sources.
  Its state is what \<^verbatim>\<open>single_phf::build\<close> reads through its accessors; \<open>'sk\<close> is the
  state of the skew bucketer.
\<close>

record 'sk single_builder =
  sb_seed :: u64
  sb_num_keys :: u64
  sb_table_size :: u64
  sb_bucketer :: 'sk
  sb_pilots :: "u64 list"
  sb_free_slots :: "u64 list"

text \<open>The fields of \<^verbatim>\<open>internal_memory_builder_partitioned_phf\<close>.\<close>

record 'sk partitioned_builder =
  m_seed :: u64
  m_num_keys :: u64
  m_table_size :: u64
  m_num_partitions :: u64
  m_bucketer :: uniform_bucketer
  m_offsets :: "u64 list"
  m_builders :: "'sk single_builder list"

text \<open>The fields of \<^verbatim>\<open>single_phf\<close>; \<open>'e\<close> is the state of an encoded sequence.\<close>

record ('sk, 'e) single_phf =
  f_seed :: u64
  f_num_keys :: u64
  f_table_size :: u64
  f_M :: u128
  f_bucketer :: 'sk
  f_pilots :: 'e
  f_free_slots :: 'e

text \<open>\<^verbatim>\<open>partitioned_phf::partition\<close> and the fields of \<^verbatim>\<open>partitioned_phf\<close>.\<close>

record ('sk, 'e) partition =
  part_offset :: u64
  part_f :: "('sk, 'e) single_phf"

record ('sk, 'e) partitioned_phf =
  p_seed :: u64
  p_num_keys :: u64
  p_table_size :: u64
  p_bucketer :: uniform_bucketer
  p_partitions :: "('sk, 'e) partition list"

text \<open>
  What the headers under verification take from the rest of the library, as parameters:
  the hasher (\<open>hash\<close>, and \<open>first\<close>, \<open>second\<close>, \<open>mix\<close> of a hash value), the hash of a
  pilot, \<^verbatim>\<open>std::log2\<close> of the C library on doubles (its rounding is not fixed by the
  standard, so its values are not computed here), the skew bucketer, the two encoders
  (the pilots' and Elias-Fano for the free slots), the collision-probability check, the
  constants, the random seed drawn for the sentinel seed, the single builder, and the
  value-initialised single builder and partition that \<^verbatim>\<open>std::vector::resize\<close> appends.
\<close>

record ('k, 'h, 'sk, 'e) library =
  hash :: "'k \<Rightarrow> u64 \<Rightarrow> 'h"
  first :: "'h \<Rightarrow> u64"
  second :: "'h \<Rightarrow> u64"
  mix :: "'h \<Rightarrow> u64"
  default_hash64 :: "u64 \<Rightarrow> u64 \<Rightarrow> u64"
  log2 :: "real \<Rightarrow> real"
  skew_bucket :: "'sk \<Rightarrow> u64 \<Rightarrow> u64"
  skew_num_buckets :: "'sk \<Rightarrow> u64"
  pilots_encode :: "u64 list \<Rightarrow> u64 \<Rightarrow> 'e"
  pilots_access :: "'e \<Rightarrow> u64 \<Rightarrow> u64"
  free_slots_encode :: "u64 list \<Rightarrow> u64 \<Rightarrow> 'e"
  free_slots_access :: "'e \<Rightarrow> u64 \<Rightarrow> u64"
  check_hash_collision_probability :: "u64 \<Rightarrow> failure option"
  min_partition_size :: u64
  invalid_seed :: u64
  random_value :: u64
  single_build_from_hashes ::
    "'h list \<Rightarrow> build_configuration \<Rightarrow> 'sk single_builder \<Rightarrow>
       'sk single_builder \<times> (failure + build_timings)"
  new_single_builder :: "'sk single_builder"
  new_partition :: "('sk, 'e) partition"

section \<open>The partitioned builder\<close>

text \<open>\<^verbatim>\<open>std::vector::resize\<close>: the first elements are kept, new ones are value-initialised.\<close>

definition resize :: "nat \<Rightarrow> 'a \<Rightarrow> 'a list \<Rightarrow> 'a list" where
  "resize n d xs = take n xs @ replicate (n - length xs) d"

text \<open>
  Lines 35 to 40 of \<^verbatim>\<open>build_from_hashes\<close>: the partition count that the build goes on
  with. The count \<open>p\<close> is not zero here.
\<close>

definition actual_num_partitions :: "u64 \<Rightarrow> u64 \<Rightarrow> u64 \<Rightarrow> u64" where
  "actual_num_partitions mps n p =
     (let average_partition_size = d_div (u64_to_double n) (u64_to_double p)
      in if average_partition_size < u64_to_double mps \<and> 1 < p then 1 else p)"

text \<open>
  Lines 56 to 61: every hash is appended to the partition that the bucketer gives for
  its \<open>mix\<close>. An index outside the vector of partitions is undefined behaviour.
\<close>

fun partition_hashes ::
  "('h \<Rightarrow> u64) \<Rightarrow> uniform_bucketer \<Rightarrow> 'h list \<Rightarrow> 'h list list \<Rightarrow> failure + 'h list list"
where
  "partition_hashes mx ub [] ps = Inr ps"
| "partition_hashes mx ub (h # hs) ps =
     (let b = unat (uniform_bucket ub (mx h))
      in if b < length ps then partition_hashes mx ub hs (ps[b := ps ! b @ [h]])
         else Inl undefined_behaviour)"

text \<open>
  Lines 66 and 67: the table size of a partition of \<open>n\<close> keys, the quotient in double
  converted to \<^verbatim>\<open>uint64_t\<close> and then incremented when
  \<^verbatim>\<open>(table_size & (table_size - 1)) == 0\<close>. With \<open>alpha = 0\<close> the quotient is infinite or
  NaN and the conversion undefined.
\<close>

definition partition_table_size :: "real \<Rightarrow> nat \<Rightarrow> u64 option" where
  "partition_table_size a n =
     (if a = 0 then None
      else case double_to_u64 (d_div (nat_to_double n) a) of
             None \<Rightarrow> None
           | Some table_size \<Rightarrow>
               Some (if table_size AND (table_size - 1) = 0 then table_size + 1
                     else table_size))"

text \<open>
  Lines 64 to 71, the loop over the partition indices \<open>is\<close> (called with \<open>[0..<P]\<close>):
  \<open>cumulative_size\<close> is passed along, \<open>m_table_size\<close> and \<open>m_offsets\<close> are updated in
  the builder.
\<close>

fun size_partitions ::
  "build_configuration \<Rightarrow> 'h list list \<Rightarrow> nat list \<Rightarrow> u64 \<Rightarrow> 'sk partitioned_builder \<Rightarrow>
     'sk partitioned_builder \<times> (failure + unit)"
where
  "size_partitions config ps [] cumulative_size b = (b, Inr ())"
| "size_partitions config ps (i # is) cumulative_size b =
     (case partition_table_size (alpha config) (length (ps ! i)) of
        None \<Rightarrow> (b, Inl undefined_behaviour)
      | Some table_size \<Rightarrow>
          size_partitions config ps is
            (cumulative_size +
               (if minimal_output config then of_nat (length (ps ! i)) else table_size))
            (b\<lparr>m_table_size := m_table_size b + table_size,
               m_offsets := (m_offsets b)[i := cumulative_size]\<rparr>))"

text \<open>
  Lines 73 to 80: the configuration of the single builders, for \<open>n\<close> keys and the actual
  partition count \<open>p\<close>. The logarithm is the value that the library's \<^verbatim>\<open>std::log2\<close>
  returns on the double of \<open>n\<close>. With a divisor zero the quotient is an infinity or a
  NaN, whose conversion to \<^verbatim>\<open>uint64_t\<close> is undefined; both conversions to
  \<^verbatim>\<open>uint64_t\<close> can be out of range.
\<close>

definition partition_config ::
  "('k, 'h, 'sk, 'e) library \<Rightarrow> build_configuration \<Rightarrow> u64 \<Rightarrow> u64 \<Rightarrow> u64 \<Rightarrow>
     build_configuration option"
where
  "partition_config L config sd n p =
     (let divisor = (if 1 < n then log2 L (u64_to_double n) else 1)
      in if divisor = 0 then None
         else
           case double_to_u64 (d_ceil (d_div (d_mul (c config) (u64_to_double n)) divisor)) of
             None \<Rightarrow> None
           | Some num_buckets_single_phf \<Rightarrow>
               (case double_to_u64
                       (d_div (u64_to_double num_buckets_single_phf) (u64_to_double p)) of
                  None \<Rightarrow> None
                | Some nb \<Rightarrow>
                    Some (config\<lparr>num_partitions := p, seed := sd, num_buckets := nb,
                                 verbose_output := False, num_threads := 1\<rparr>)))"

subsection \<open>\<^verbatim>\<open>build_partitions\<close>\<close>

text \<open>
  The loop body shared by the sequential path (lines 132 to 137) and by the function
  \<open>exe\<close> of a thread (lines 104 to 110): the partitions with indices \<open>is\<close> are built in
  order, each by its own single builder, and the two durations are added to \<open>t\<close>.
  An exception of a single builder ends the loop.
\<close>

fun build_range ::
  "('k, 'h, 'sk, 'e) library \<Rightarrow> build_configuration \<Rightarrow> 'h list list \<Rightarrow> nat list \<Rightarrow>
     'sk single_builder list \<Rightarrow> build_timings \<Rightarrow>
     'sk single_builder list \<times> (failure + build_timings)"
where
  "build_range L config ps [] builders t = (builders, Inr t)"
| "build_range L config ps (i # is) builders t =
     (case single_build_from_hashes L (ps ! i) config (builders ! i) of
        (sb, Inl e) \<Rightarrow> (builders[i := sb], Inl e)
      | (sb, Inr ti) \<Rightarrow>
          build_range L config ps is (builders[i := sb])
            (t\<lparr>mapping_ordering_seconds :=
                  d_add (mapping_ordering_seconds t) (mapping_ordering_seconds ti),
               searching_seconds := d_add (searching_seconds t) (searching_seconds ti)\<rparr>))"

text \<open>
  Lines 113 to 119: the ranges of the threads. \<open>k\<close> threads are still to be started, the
  next one at \<open>begin\<close>; the additions are those of \<^verbatim>\<open>uint64_t\<close>.
\<close>

fun thread_ranges :: "u64 \<Rightarrow> u64 \<Rightarrow> nat \<Rightarrow> u64 \<Rightarrow> (u64 \<times> u64) list" where
  "thread_ranges num_parts per_thread 0 begin = []"
| "thread_ranges num_parts per_thread (Suc k) begin =
     (let end0 = begin + per_thread;
          end1 = (if num_parts < end0 then num_parts else end0)
      in (begin, end1) # thread_ranges num_parts per_thread k end1)"

definition num_partitions_per_thread :: "u64 \<Rightarrow> u64 \<Rightarrow> u64" where
  "num_partitions_per_thread num_parts nthreads = (num_parts + nthreads - 1) div nthreads"

text \<open>
  The threads. Each one runs \<open>exe\<close> on its range with its own timings, starting from
  zero, and writes only the builders of its range; the ranges are disjoint
  (\<open>thread_ranges\<close> starts each one where the previous one ends), so the builders after the
  join do not depend on the interleaving, and the threads are run here one after the
  other. A loop from \<open>begin\<close> to an \<open>end\<close> below it would leave the vectors. An exception
  that leaves the function of a \<^verbatim>\<open>std::thread\<close> calls \<^verbatim>\<open>std::terminate\<close>.
\<close>

fun run_threads ::
  "('k, 'h, 'sk, 'e) library \<Rightarrow> build_configuration \<Rightarrow> 'h list list \<Rightarrow> (u64 \<times> u64) list \<Rightarrow>
     'sk single_builder list \<Rightarrow> 'sk single_builder list \<times> (failure + build_timings list)"
where
  "run_threads L config ps [] builders = (builders, Inr [])"
| "run_threads L config ps ((begin, end) # rs) builders =
     (if end < begin then (builders, Inl undefined_behaviour)
      else case build_range L config ps [unat begin..<unat end] builders fresh_timings of
             (builders1, Inl e) \<Rightarrow> (builders1, Inl terminate_called)
           | (builders1, Inr t) \<Rightarrow>
               (case run_threads L config ps rs builders1 of
                  (builders2, Inl e) \<Rightarrow> (builders2, Inl e)
                | (builders2, Inr ts) \<Rightarrow> (builders2, Inr (t # ts))))"

text \<open>Lines 125 to 130: the maxima over the timings of the threads.\<close>

fun max_timings :: "build_timings list \<Rightarrow> build_timings \<Rightarrow> build_timings" where
  "max_timings [] timings = timings"
| "max_timings (t # ts) timings =
     max_timings ts
       (timings\<lparr>mapping_ordering_seconds :=
                   (if mapping_ordering_seconds timings < mapping_ordering_seconds t
                    then mapping_ordering_seconds t else mapping_ordering_seconds timings),
                 searching_seconds :=
                   (if searching_seconds timings < searching_seconds t
                    then searching_seconds t else searching_seconds timings)\<rparr>)"

definition build_partitions ::
  "('k, 'h, 'sk, 'e) library \<Rightarrow> 'h list list \<Rightarrow> 'sk single_builder list \<Rightarrow>
     build_configuration \<Rightarrow> u64 \<Rightarrow> 'sk single_builder list \<times> (failure + build_timings)"
where
  "build_partitions L ps builders config nthreads =
     (if num_threads config \<noteq> 1 then (builders, Inl assertion_failed)
      else if 1 < nthreads then
        (case run_threads L config ps
                (thread_ranges (num_partitions config)
                   (num_partitions_per_thread (num_partitions config) nthreads)
                   (unat nthreads) 0)
                builders of
           (builders1, Inl e) \<Rightarrow> (builders1, Inl e)
         | (builders1, Inr thread_timings) \<Rightarrow>
             (builders1, Inr (max_timings thread_timings fresh_timings)))
      else build_range L config ps [0..<unat (num_partitions config)] builders fresh_timings)"

subsection \<open>\<^verbatim>\<open>build_from_hashes\<close> and \<^verbatim>\<open>build_from_keys\<close>\<close>

text \<open>
  The iterator \<open>hashes\<close> gives the \<open>i\<close>-th hash; \<open>num_keys\<close> of them are read. \<open>elapsed\<close> is
  the duration that the clock measures for the partitioning. The result is the builder
  as the call leaves it, with the exception or the timings.
\<close>

definition build_from_hashes ::
  "('k, 'h, 'sk, 'e) library \<Rightarrow> (nat \<Rightarrow> 'h) \<Rightarrow> u64 \<Rightarrow> build_configuration \<Rightarrow> real \<Rightarrow>
     'sk partitioned_builder \<Rightarrow> 'sk partitioned_builder \<times> (failure + build_timings)"
where
  "build_from_hashes L hashes num_keys config elapsed b =
     (if num_keys = 0 then (b, Inl assertion_failed)
      else case check_hash_collision_probability L num_keys of
        Some e \<Rightarrow> (b, Inl e)
      | None \<Rightarrow>
      if num_partitions config = 0
      then (b, Inl (invalid_argument ''number of partitions must be > 0''))
      else
        let np = actual_num_partitions (min_partition_size L) num_keys (num_partitions config);
            b1 = b\<lparr>m_seed := seed config, m_num_keys := num_keys, m_table_size := 0,
                   m_num_partitions := np, m_bucketer := uniform_bucketer_init np,
                   m_offsets := resize (unat np) 0 (m_offsets b),
                   m_builders := resize (unat np) (new_single_builder L) (m_builders b)\<rparr>
        in case partition_hashes (mix L) (m_bucketer b1) (map hashes [0..<unat num_keys])
                  (replicate (unat np) []) of
             Inl e \<Rightarrow> (b1, Inl e)
           | Inr partitions \<Rightarrow>
        (case size_partitions config partitions [0..<unat np] 0 b1 of
           (b2, Inl e) \<Rightarrow> (b2, Inl e)
         | (b2, Inr u) \<Rightarrow>
        (case partition_config L config (m_seed b2) num_keys np of
           None \<Rightarrow> (b2, Inl undefined_behaviour)
         | Some pc \<Rightarrow>
        (case build_partitions L partitions (m_builders b2) pc (num_threads config) of
           (builders, Inl e) \<Rightarrow> (b2\<lparr>m_builders := builders\<rparr>, Inl e)
         | (builders, Inr t) \<Rightarrow>
             (b2\<lparr>m_builders := builders\<rparr>,
              Inr (fresh_timings\<lparr>partitioning_seconds := elapsed,
                     mapping_ordering_seconds := mapping_ordering_seconds t,
                     searching_seconds := searching_seconds t\<rparr>))))))"

definition build_from_keys ::
  "('k, 'h, 'sk, 'e) library \<Rightarrow> (nat \<Rightarrow> 'k) \<Rightarrow> u64 \<Rightarrow> build_configuration \<Rightarrow> real \<Rightarrow>
     'sk partitioned_builder \<Rightarrow> 'sk partitioned_builder \<times> (failure + build_timings)"
where
  "build_from_keys L keys num_keys config elapsed b =
     (let actual_config =
            (if seed config = invalid_seed L then config\<lparr>seed := random_value L\<rparr> else config)
      in build_from_hashes L (\<lambda>i. hash L (keys i) (seed actual_config)) num_keys
           actual_config elapsed b)"

section \<open>The function objects\<close>

subsection \<open>\<^verbatim>\<open>single_phf\<close>\<close>

text \<open>
  \<^verbatim>\<open>single_phf::build\<close>; \<open>Minimal\<close> is the template parameter and \<open>elapsed\<close> the duration
  that the clock measures. The reciprocal of a table size zero is a division by zero.
\<close>

definition single_phf_build ::
  "bool \<Rightarrow> ('k, 'h, 'sk, 'e) library \<Rightarrow> 'sk single_builder \<Rightarrow> build_configuration \<Rightarrow> real \<Rightarrow>
     ('sk, 'e) single_phf \<Rightarrow> ('sk, 'e) single_phf \<times> (failure + real)"
where
  "single_phf_build Minimal L builder config elapsed ph =
     (if Minimal \<and> \<not> minimal_output config
      then (ph, Inl (runtime_error
              ''Cannot build single_phf<..., ..., true> with minimal_output=false''))
      else if \<not> Minimal \<and> minimal_output config
      then (ph, Inl (runtime_error
              ''Cannot build single_phf<..., ..., false> with minimal_output=true''))
      else
        let ph1 = ph\<lparr>f_seed := sb_seed builder, f_num_keys := sb_num_keys builder,
                      f_table_size := sb_table_size builder\<rparr>
        in if f_table_size ph1 = 0 then (ph1, Inl undefined_behaviour)
           else
             let ph2 = ph1\<lparr>f_M := computeM_u64 (f_table_size ph1),
                            f_bucketer := sb_bucketer builder,
                            f_pilots := pilots_encode L (sb_pilots builder)
                                          (skew_num_buckets L (sb_bucketer builder))\<rparr>;
                 ph3 = (if Minimal \<and> f_num_keys ph2 < f_table_size ph2
                        then ph2\<lparr>f_free_slots :=
                                    free_slots_encode L (sb_free_slots builder)
                                      (f_table_size ph2 - f_num_keys ph2)\<rparr>
                        else ph2)
             in (ph3, Inr elapsed))"

text \<open>\<^verbatim>\<open>single_phf::position\<close>.\<close>

definition single_phf_position ::
  "bool \<Rightarrow> ('k, 'h, 'sk, 'e) library \<Rightarrow> ('sk, 'e) single_phf \<Rightarrow> 'h \<Rightarrow> u64"
where
  "single_phf_position Minimal L ph h =
     (let bucket = skew_bucket L (f_bucketer ph) (first L h);
          pilot = pilots_access L (f_pilots ph) bucket;
          hashed_pilot = default_hash64 L pilot (f_seed ph);
          p = fastmod_u64 (second L h XOR hashed_pilot) (f_M ph) (f_table_size ph)
      in if Minimal
         then (if p < f_num_keys ph then p
               else free_slots_access L (f_free_slots ph) (p - f_num_keys ph))
         else p)"

subsection \<open>\<^verbatim>\<open>partitioned_phf\<close>\<close>

text \<open>
  The loop body of \<^verbatim>\<open>partitioned_phf::build\<close>, sequential (lines 408 to 411) or of a
  thread (lines 390 to 393), over the partition indices \<open>is\<close>. Reading \<open>offsets\<close> or
  \<open>builders\<close> outside the vector is undefined behaviour.
\<close>

fun encode_range ::
  "bool \<Rightarrow> ('k, 'h, 'sk, 'e) library \<Rightarrow> 'sk partitioned_builder \<Rightarrow> build_configuration \<Rightarrow>
     real \<Rightarrow> nat list \<Rightarrow> ('sk, 'e) partition list \<Rightarrow>
     ('sk, 'e) partition list \<times> (failure + unit)"
where
  "encode_range Minimal L builder config elapsed [] parts = (parts, Inr ())"
| "encode_range Minimal L builder config elapsed (i # is) parts =
     (if length (m_offsets builder) \<le> i \<or> length (m_builders builder) \<le> i
      then (parts, Inl undefined_behaviour)
      else
        let p1 = (parts ! i)\<lparr>part_offset := m_offsets builder ! i\<rparr>
        in case single_phf_build Minimal L (m_builders builder ! i) config elapsed (part_f p1) of
             (ph, Inl e) \<Rightarrow> (parts[i := p1\<lparr>part_f := ph\<rparr>], Inl e)
           | (ph, Inr u) \<Rightarrow>
               encode_range Minimal L builder config elapsed is (parts[i := p1\<lparr>part_f := ph\<rparr>]))"

text \<open>The threads of \<^verbatim>\<open>partitioned_phf::build\<close>, as in \<open>run_threads\<close>.\<close>

fun run_encode_threads ::
  "bool \<Rightarrow> ('k, 'h, 'sk, 'e) library \<Rightarrow> 'sk partitioned_builder \<Rightarrow> build_configuration \<Rightarrow>
     real \<Rightarrow> (u64 \<times> u64) list \<Rightarrow> ('sk, 'e) partition list \<Rightarrow>
     ('sk, 'e) partition list \<times> (failure + unit)"
where
  "run_encode_threads Minimal L builder config elapsed [] parts = (parts, Inr ())"
| "run_encode_threads Minimal L builder config elapsed ((begin, end) # rs) parts =
     (if end < begin then (parts, Inl undefined_behaviour)
      else case encode_range Minimal L builder config elapsed [unat begin..<unat end] parts of
             (parts1, Inl e) \<Rightarrow> (parts1, Inl terminate_called)
           | (parts1, Inr u) \<Rightarrow> run_encode_threads Minimal L builder config elapsed rs parts1)"

text \<open>\<^verbatim>\<open>partitioned_phf::build\<close>.\<close>

definition partitioned_phf_build ::
  "bool \<Rightarrow> ('k, 'h, 'sk, 'e) library \<Rightarrow> 'sk partitioned_builder \<Rightarrow> build_configuration \<Rightarrow>
     real \<Rightarrow> ('sk, 'e) partitioned_phf \<Rightarrow> ('sk, 'e) partitioned_phf \<times> (failure + real)"
where
  "partitioned_phf_build Minimal L builder config elapsed pf =
     (if Minimal \<and> \<not> minimal_output config
      then (pf, Inl (runtime_error
              ''Cannot build partitioned_phf<..., ..., true> with minimal_output=false''))
      else if \<not> Minimal \<and> minimal_output config
      then (pf, Inl (runtime_error
              ''Cannot build partitioned_phf<..., ..., false> with minimal_output=true''))
      else
        let np = m_num_partitions builder;
            pf1 = pf\<lparr>p_seed := m_seed builder, p_num_keys := m_num_keys builder,
                      p_table_size := m_table_size builder, p_bucketer := m_bucketer builder,
                      p_partitions := resize (unat np) (new_partition L) (p_partitions pf)\<rparr>;
            nthreads = num_threads config
        in case (if 1 < nthreads
                 then run_encode_threads Minimal L builder config elapsed
                        (thread_ranges np (num_partitions_per_thread np nthreads)
                           (unat nthreads) 0)
                        (p_partitions pf1)
                 else encode_range Minimal L builder config elapsed [0..<unat np]
                        (p_partitions pf1)) of
             (parts, Inl e) \<Rightarrow> (pf1\<lparr>p_partitions := parts\<rparr>, Inl e)
           | (parts, Inr u) \<Rightarrow> (pf1\<lparr>p_partitions := parts\<rparr>, Inr elapsed))"

text \<open>
  \<^verbatim>\<open>partitioned_phf::build_in_internal_memory\<close>. \<open>builder\<close> is the local builder as it
  is default-initialised; it is not visible to the caller. \<open>elapsed1\<close> and \<open>elapsed2\<close> are
  the two durations that the clock measures.
\<close>

definition build_in_internal_memory ::
  "bool \<Rightarrow> ('k, 'h, 'sk, 'e) library \<Rightarrow> (nat \<Rightarrow> 'k) \<Rightarrow> u64 \<Rightarrow> build_configuration \<Rightarrow>
     real \<Rightarrow> real \<Rightarrow> 'sk partitioned_builder \<Rightarrow> ('sk, 'e) partitioned_phf \<Rightarrow>
     ('sk, 'e) partitioned_phf \<times> (failure + build_timings)"
where
  "build_in_internal_memory Minimal L keys num_keys config elapsed1 elapsed2 builder pf =
     (case build_from_keys L keys num_keys config elapsed1 builder of
        (builder1, Inl e) \<Rightarrow> (pf, Inl e)
      | (builder1, Inr timings) \<Rightarrow>
          (case partitioned_phf_build Minimal L builder1 config elapsed2 pf of
             (pf1, Inl e) \<Rightarrow> (pf1, Inl e)
           | (pf1, Inr encoding) \<Rightarrow> (pf1, Inr (timings\<lparr>encoding_seconds := encoding\<rparr>))))"

text \<open>
  \<^verbatim>\<open>partitioned_phf::position\<close> and \<^verbatim>\<open>operator()\<close>. An index outside \<open>m_partitions\<close> is
  undefined behaviour.
\<close>

definition partitioned_phf_position ::
  "bool \<Rightarrow> ('k, 'h, 'sk, 'e) library \<Rightarrow> ('sk, 'e) partitioned_phf \<Rightarrow> 'h \<Rightarrow> failure + u64"
where
  "partitioned_phf_position Minimal L pf h =
     (let b = unat (uniform_bucket (p_bucketer pf) (mix L h))
      in if b < length (p_partitions pf)
         then let p = p_partitions pf ! b
              in Inr (part_offset p + single_phf_position Minimal L (part_f p) h)
         else Inl undefined_behaviour)"

definition partitioned_phf_apply ::
  "bool \<Rightarrow> ('k, 'h, 'sk, 'e) library \<Rightarrow> ('sk, 'e) partitioned_phf \<Rightarrow> 'k \<Rightarrow> failure + u64"
where
  "partitioned_phf_apply Minimal L pf key =
     partitioned_phf_position Minimal L pf (hash L key (p_seed pf))"

section \<open>Notions of the specification and of the proofs\<close>

text \<open>
  The hashes of partition \<open>i\<close> (the spec's \<open>P_i\<close>), in the order of the input; the table
  size of partition \<open>i\<close> and the step of \<open>cumulative_size\<close> at \<open>i\<close>; the builder as it
  enters the loops.
\<close>

definition partition_keys :: "('k, 'h, 'sk, 'e) library \<Rightarrow> u64 \<Rightarrow> 'h list \<Rightarrow> nat \<Rightarrow> 'h list" where
  "partition_keys L np hs i =
     filter (\<lambda>h. unat (uniform_bucket (uniform_bucketer_init np) (mix L h)) = i) hs"

definition table_size_of :: "build_configuration \<Rightarrow> 'h list list \<Rightarrow> nat \<Rightarrow> u64" where
  "table_size_of config ps i = the (partition_table_size (alpha config) (length (ps ! i)))"

definition increment_of :: "build_configuration \<Rightarrow> 'h list list \<Rightarrow> nat \<Rightarrow> u64" where
  "increment_of config ps i =
     (if minimal_output config then of_nat (length (ps ! i)) else table_size_of config ps i)"

definition sized_builder ::
  "('k, 'h, 'sk, 'e) library \<Rightarrow> u64 \<Rightarrow> build_configuration \<Rightarrow> u64 \<Rightarrow> 'sk partitioned_builder \<Rightarrow>
     'sk partitioned_builder" where
  "sized_builder L n config np b =
     b\<lparr>m_seed := seed config, m_num_keys := n, m_table_size := 0,
       m_num_partitions := np, m_bucketer := uniform_bucketer_init np,
       m_offsets := resize (unat np) 0 (m_offsets b),
       m_builders := resize (unat np) (new_single_builder L) (m_builders b)\<rparr>"

text \<open>
  The partition indices of a range; the ranges of the threads (one range on the
  sequential path); the timings that the single builder reports for partition \<open>i\<close>; a
  sum of doubles in the order of the list; the timings of a thread.
\<close>

definition range_indices :: "u64 \<times> u64 \<Rightarrow> nat list" where
  "range_indices r = [unat (fst r)..<unat (snd r)]"

definition threads_of :: "u64 \<Rightarrow> u64 \<Rightarrow> (u64 \<times> u64) list" where
  "threads_of num_parts nthreads =
     (if 1 < nthreads
      then thread_ranges num_parts (num_partitions_per_thread num_parts nthreads) (unat nthreads) 0
      else [(0, num_parts)])"

definition partition_timings ::
  "('k, 'h, 'sk, 'e) library \<Rightarrow> build_configuration \<Rightarrow> 'h list list \<Rightarrow> 'sk single_builder list \<Rightarrow>
     nat \<Rightarrow> build_timings" where
  "partition_timings L config ps builders i =
     (case snd (single_build_from_hashes L (ps ! i) config (builders ! i)) of
        Inr ti \<Rightarrow> ti | Inl e \<Rightarrow> fresh_timings)"

definition double_sum :: "real list \<Rightarrow> real" where
  "double_sum xs = foldl d_add 0 xs"

definition thread_timings ::
  "('k, 'h, 'sk, 'e) library \<Rightarrow> build_configuration \<Rightarrow> 'h list list \<Rightarrow> 'sk single_builder list \<Rightarrow>
     u64 \<times> u64 \<Rightarrow> build_timings" where
  "thread_timings L config ps builders r =
     fresh_timings
       \<lparr>mapping_ordering_seconds :=
          double_sum (map (\<lambda>i. mapping_ordering_seconds (partition_timings L config ps builders i))
            (range_indices r)),
        searching_seconds :=
          double_sum (map (\<lambda>i. searching_seconds (partition_timings L config ps builders i))
            (range_indices r))\<rparr>"

section \<open>A small instance\<close>

text \<open>
  A hasher on pairs of words, encoders that store the sequence, and a single builder
  that places every key of a partition of at most one key; used to run the definitions
  on concrete inputs.
\<close>

definition example_single_build ::
  "(u64 \<times> u64) list \<Rightarrow> build_configuration \<Rightarrow> unit single_builder \<Rightarrow>
     unit single_builder \<times> (failure + build_timings)" where
  "example_single_build hs config sb =
     (\<lparr>sb_seed = seed config, sb_num_keys = of_nat (length hs), sb_table_size = 1,
       sb_bucketer = (), sb_pilots = [0], sb_free_slots = []\<rparr>,
      Inr (fresh_timings\<lparr>mapping_ordering_seconds := 1, searching_seconds := 2\<rparr>))"

text \<open>
  The logarithm of the instance is the exact one rounded to nearest, one of the values
  that a C library may return; the instance is run on powers of two only, where the
  logarithm is an integer and every rounding agrees.
\<close>

definition example_log2 :: "real \<Rightarrow> real" where
  "example_log2 x = round_double (log 2 x)"

definition example_library :: "(nat, u64 \<times> u64, unit, u64 list) library" where
  "example_library =
     \<lparr>hash = (\<lambda>k s. (of_nat k, s)), first = fst, second = snd,
      mix = (\<lambda>h. fst h XOR snd h),
      default_hash64 = (\<lambda>p s. p + s), log2 = example_log2,
      skew_bucket = (\<lambda>u x. 0), skew_num_buckets = (\<lambda>u. 1),
      pilots_encode = (\<lambda>xs n. take (unat n) xs), pilots_access = (\<lambda>xs i. xs ! unat i),
      free_slots_encode = (\<lambda>xs n. take (unat n) xs), free_slots_access = (\<lambda>xs i. xs ! unat i),
      check_hash_collision_probability = (\<lambda>n. None),
      min_partition_size = 1, invalid_seed = - 1, random_value = 7,
      single_build_from_hashes = example_single_build,
      new_single_builder = \<lparr>sb_seed = 0, sb_num_keys = 0, sb_table_size = 0,
        sb_bucketer = (), sb_pilots = [], sb_free_slots = []\<rparr>,
      new_partition = \<lparr>part_offset = 0, part_f = \<lparr>f_seed = 0, f_num_keys = 0, f_table_size = 0,
        f_M = 0, f_bucketer = (), f_pilots = [], f_free_slots = []\<rparr>\<rparr>\<rparr>"

definition example_config :: build_configuration where
  "example_config =
     \<lparr>c = 2, alpha = 1, minimal_output = True, seed = 0, num_partitions = 2,
      num_buckets = 0, num_threads = 1, verbose_output = False\<rparr>"

definition example_phf :: "(unit, u64 list) partitioned_phf" where
  "example_phf =
     \<lparr>p_seed = 0, p_num_keys = 0, p_table_size = 0, p_bucketer = uniform_bucketer_init 0,
      p_partitions = []\<rparr>"

definition example_builder :: "unit partitioned_builder" where
  "example_builder =
     \<lparr>m_seed = 0, m_num_keys = 0, m_table_size = 0, m_num_partitions = 0,
      m_bucketer = uniform_bucketer_init 0, m_offsets = [], m_builders = []\<rparr>"

definition example_hashes :: "nat \<Rightarrow> u64 \<times> u64" where
  "example_hashes i = (of_nat i, 0)"

definition example_built :: "unit partitioned_builder" where
  "example_built =
     \<lparr>m_seed = 0, m_num_keys = 2, m_table_size = 4, m_num_partitions = 2,
      m_bucketer = uniform_bucketer_init 2, m_offsets = [0, 1],
      m_builders =
        [\<lparr>sb_seed = 0, sb_num_keys = 1, sb_table_size = 1, sb_bucketer = (),
          sb_pilots = [0], sb_free_slots = []\<rparr>,
         \<lparr>sb_seed = 0, sb_num_keys = 1, sb_table_size = 1, sb_bucketer = (),
          sb_pilots = [0], sb_free_slots = []\<rparr>]\<rparr>"

definition example_config34 :: build_configuration where
  "example_config34 = example_config\<lparr>alpha := 3 / 4, num_partitions := 1\<rparr>"

definition example_hashes_even :: "nat \<Rightarrow> u64 \<times> u64" where
  "example_hashes_even i = (of_nat (2 * i), 0)"

definition example_built_even :: "unit partitioned_builder" where
  "example_built_even =
     \<lparr>m_seed = 0, m_num_keys = 2, m_table_size = 4, m_num_partitions = 2,
      m_bucketer = uniform_bucketer_init 2, m_offsets = [0, 2],
      m_builders =
        [\<lparr>sb_seed = 0, sb_num_keys = 2, sb_table_size = 1, sb_bucketer = (),
          sb_pilots = [0], sb_free_slots = []\<rparr>,
         \<lparr>sb_seed = 0, sb_num_keys = 0, sb_table_size = 1, sb_bucketer = (),
          sb_pilots = [0], sb_free_slots = []\<rparr>]\<rparr>"

definition example_partitions :: "(u64 \<times> u64) list list" where
  "example_partitions = [[(0, 0)], [(1, 0)]]"

definition example_sub_config :: build_configuration where
  "example_sub_config = example_config\<lparr>num_buckets := 2\<rparr>"

definition example_function :: "(unit, u64 list) partitioned_phf" where
  "example_function =
     \<lparr>p_seed = 0, p_num_keys = 2, p_table_size = 4, p_bucketer = uniform_bucketer_init 2,
      p_partitions =
        [\<lparr>part_offset = 0, part_f = \<lparr>f_seed = 0, f_num_keys = 1, f_table_size = 1,
           f_M = computeM_u64 1, f_bucketer = (), f_pilots = [0], f_free_slots = []\<rparr>\<rparr>,
         \<lparr>part_offset = 1, part_f = \<lparr>f_seed = 0, f_num_keys = 1, f_table_size = 1,
           f_M = computeM_u64 1, f_bucketer = (), f_pilots = [0], f_free_slots = []\<rparr>\<rparr>]\<rparr>"

section \<open>Rounding to a double\<close>

lemma round_half_even_of_int: "round_half_even (of_int k) = k"
  by (simp add: round_half_even_def)

lemma ulp_pos: "0 < ulp x"
  by (simp add: ulp_def)

lemma floor_log2_eqI:
  assumes "2 powi e \<le> x" "x < 2 powi (e + 1)"
  shows "\<lfloor>log 2 x\<rfloor> = e"
proof -
  have "0 < (2::real) powi e" by simp
  then have x: "0 < x" using assms(1) by linarith
  have "2 powr real_of_int e = (2::real) powi e" "2 powr real_of_int (e + 1) = (2::real) powi (e + 1)"
    by (rule powr_real_of_int'; simp)+
  then show ?thesis
    using assms floor_log_eq_powr_iff [OF x, of 2 e] by (simp del: of_int_add)
qed

lemma binade_eqI:
  assumes "2 powi e \<le> \<bar>x\<bar>" "\<bar>x\<bar> < 2 powi (e + 1)" "- 1022 \<le> e"
  shows "binade x = e"
  using floor_log2_eqI [OF assms(1,2)] assms(3) by (simp add: binade_def)

lemma floor_log2_bounds:
  assumes "0 < x"
  shows "2 powi \<lfloor>log 2 x\<rfloor> \<le> x \<and> x < 2 powi (\<lfloor>log 2 x\<rfloor> + 1)"
proof -
  have "2 powr real_of_int \<lfloor>log 2 x\<rfloor> = (2::real) powi \<lfloor>log 2 x\<rfloor>"
    "2 powr real_of_int (\<lfloor>log 2 x\<rfloor> + 1) = (2::real) powi (\<lfloor>log 2 x\<rfloor> + 1)"
    by (rule powr_real_of_int'; simp)+
  then show ?thesis
    using floor_log_eq_powr_iff [OF assms, of 2 "\<lfloor>log 2 x\<rfloor>"] by (simp del: of_int_add)
qed

lemma round_half_even_mono_int:
  "of_int k \<le> q \<Longrightarrow> k \<le> round_half_even q"
  "q \<le> of_int k \<Longrightarrow> round_half_even q \<le> k"
   apply (simp_all add: round_half_even_def Let_def)
  apply (auto simp: le_floor_iff)[1]
  apply linarith
  apply (auto)
  apply linarith+
  done

lemma round_half_even_nonneg: "0 \<le> q \<Longrightarrow> 0 \<le> round_half_even q"
  using round_half_even_mono_int(1) [of 0 q] by simp

lemma round_double_nonneg: "0 \<le> x \<Longrightarrow> 0 \<le> round_double x"
  by (simp add: round_double_def ulp_pos less_imp_le round_half_even_nonneg)

lemma div_eq_if_mult: "0 < u \<Longrightarrow> x = a * u \<Longrightarrow> x / u = (a::real)"
  by simp

text \<open>dyadic numbers with short significand are fixed\<close>
lemma round_double_dyadic:
  assumes m: "\<bar>m\<bar> < 2 ^ 53" and k: "- 1074 \<le> k"
  shows "round_double (of_int m * 2 powi k) = of_int m * 2 powi k"
proof (cases "m = 0")
  case True then show ?thesis by (simp add: round_double_def)
next
  case False
  define x :: real where "x = of_int m * 2 powi k"
  have x0: "x \<noteq> 0" using False by (simp add: x_def)
  then have ax: "0 < \<bar>x\<bar>" by simp
  define e where "e = \<lfloor>log 2 \<bar>x\<bar>\<rfloor>"
  have "2 powi e \<le> \<bar>x\<bar>" using floor_log2_bounds [OF ax] by (simp add: e_def)
  also have "\<bar>x\<bar> = of_int \<bar>m\<bar> * 2 powi k" by (simp add: x_def abs_mult)
  also have "\<dots> < 2 powi 53 * 2 powi k"
  proof (rule mult_strict_right_mono)
    have "real_of_int \<bar>m\<bar> < real_of_int (2 ^ 53)" using m by (simp only: of_int_less_iff)
    then show "real_of_int \<bar>m\<bar> < 2 powi 53" by simp
    show "0 < (2::real) powi k" by simp
  qed
  also have "\<dots> = 2 powi (53 + k)" by (rule power_int_add [symmetric]) simp
  finally have "(2::real) powi e < 2 powi (53 + k)" .
  then have "e < 53 + k"
    using power_int_increasing [of "53 + k" e "2::real"] by (cases "e < 53 + k") simp_all
  then have b: "binade x - 52 \<le> k" using k by (simp add: binade_def e_def)
  define j where "j = nat (k - (binade x - 52))"
  have "(2::real) powi (binade x - 52) * 2 powi int j = 2 powi (binade x - 52 + int j)"
    by (rule power_int_add [symmetric]) simp
  also have "binade x - 52 + int j = k" using b by (simp add: j_def)
  finally have pk: "2 powi k = ulp x * (2::real) ^ j"
    by (simp add: ulp_def)
  have u: "0 < ulp x" by (rule ulp_pos)
  have "x = of_int m * 2 powi k" by (fact x_def)
  also have "\<dots> = of_int m * (ulp x * 2 ^ j)" by (rule arg_cong [OF pk])
  also have "\<dots> = of_int (m * 2 ^ j) * ulp x" by simp
  finally have xu: "x = of_int (m * 2 ^ j) * ulp x" .
  have q: "x / ulp x = of_int (m * 2 ^ j)"
    by (rule div_eq_if_mult [OF u xu])
  have "round_half_even (x / ulp x) = m * 2 ^ j"
    unfolding q by (rule round_half_even_of_int)
  then have "round_double x = of_int (m * 2 ^ j) * ulp x"
    using x0 by (simp add: round_double_def)
  also have "\<dots> = x" by (rule xu [symmetric])
  finally show ?thesis by (simp add: x_def)
qed

lemma round_double_of_nat:
  assumes "n \<le> 2 ^ 53"
  shows "round_double (real n) = real n"
proof (cases "n = 2 ^ 53")
  case True
  have "round_double (of_int 1 * 2 powi 53) = of_int 1 * 2 powi 53"
    by (rule round_double_dyadic) simp_all
  then show ?thesis using True by simp
next
  case False
  then have "\<bar>int n\<bar> < 2 ^ 53" using assms by simp
  from round_double_dyadic [OF this, of 0] show ?thesis by simp
qed


lemma round_double_0 [simp]: "round_double 0 = 0"
  by (simp add: round_double_def)

lemma round_double_1 [simp]: "round_double 1 = 1"
  using round_double_of_nat [of 1] by simp

lemma round_double_numeral [simp]:
  "(numeral k :: nat) \<le> 2 ^ 53 \<Longrightarrow> round_double (numeral k) = numeral k"
  using round_double_of_nat [of "numeral k"] by simp

lemma nat_to_double_exact: "n \<le> 2 ^ 53 \<Longrightarrow> nat_to_double n = real n"
  by (simp add: nat_to_double_def round_double_of_nat)

lemma replicate_numeral: "replicate (numeral k) x = x # replicate (pred_numeral k) x"
  by (simp add: numeral_eq_Suc)



section \<open>Configuration errors\<close>

text \<open>
  C7. With \<open>num_partitions = 0\<close> (and a non-empty input that passes the collision
  check) \<^verbatim>\<open>build_from_hashes\<close> throws \<^verbatim>\<open>std::invalid_argument\<close> and leaves the builder as
  it was, and so does \<^verbatim>\<open>build_in_internal_memory\<close> with the function object. When
  the template parameter \<open>Minimal\<close> differs from \<open>minimal_output\<close>, \<^verbatim>\<open>build\<close> of the
  partitioned and of the single function throws \<^verbatim>\<open>std::runtime_error\<close> and leaves the
  function object as it was (the builder is only read). In either case
  \<^verbatim>\<open>build_in_internal_memory\<close> ends with an exception and the function object
  unchanged.
\<close>

theorem invalid_config_raised_first:
  fixes b :: "'sk partitioned_builder" and pf :: "('sk, 'e) partitioned_phf"
    and L :: "('k, 'h, 'sk, 'e) library"
  shows
  "(num_keys \<noteq> 0 \<and> check_hash_collision_probability L num_keys = None \<and>
      num_partitions config = 0 \<longrightarrow>
      build_from_hashes L hashes num_keys config elapsed b =
        (b, Inl (invalid_argument ''number of partitions must be > 0'')) \<and>
      build_in_internal_memory Minimal L keys num_keys config elapsed elapsed2 b pf =
        (pf, Inl (invalid_argument ''number of partitions must be > 0''))) \<and>
   (Minimal \<noteq> minimal_output config \<longrightarrow>
      (\<exists>msg. partitioned_phf_build Minimal L b config elapsed pf = (pf, Inl (runtime_error msg))) \<and>
      (\<exists>msg. single_phf_build Minimal L sb config elapsed ph = (ph, Inl (runtime_error msg)))) \<and>
   (num_partitions config = 0 \<or> Minimal \<noteq> minimal_output config \<longrightarrow>
      (\<exists>e. build_in_internal_memory Minimal L keys num_keys config elapsed elapsed2 b pf =
             (pf, Inl e)))"
proof (intro conjI impI)
  assume a: "num_keys \<noteq> 0 \<and> check_hash_collision_probability L num_keys = None \<and>
      num_partitions config = 0"
  then show "build_from_hashes L hashes num_keys config elapsed b =
        (b, Inl (invalid_argument ''number of partitions must be > 0''))"
    by (simp add: build_from_hashes_def)
  from a show "build_in_internal_memory Minimal L keys num_keys config elapsed elapsed2 b pf =
        (pf, Inl (invalid_argument ''number of partitions must be > 0''))"
    by (simp add: build_in_internal_memory_def build_from_keys_def build_from_hashes_def Let_def)
next
  assume "Minimal \<noteq> minimal_output config"
  then show "\<exists>msg. partitioned_phf_build Minimal L b config elapsed pf = (pf, Inl (runtime_error msg))"
    by (cases Minimal) (simp_all add: partitioned_phf_build_def)
next
  assume "Minimal \<noteq> minimal_output config"
  then show "\<exists>msg. single_phf_build Minimal L sb config elapsed ph = (ph, Inl (runtime_error msg))"
    by (cases Minimal) (simp_all add: single_phf_build_def)
next
  assume a: "num_partitions config = 0 \<or> Minimal \<noteq> minimal_output config"
  let ?r = "build_from_keys L keys num_keys config elapsed b"
  show "\<exists>e. build_in_internal_memory Minimal L keys num_keys config elapsed elapsed2 b pf = (pf, Inl e)"
  proof (cases "snd ?r")
    case (Inl e)
    then show ?thesis
      by (cases ?r) (simp add: build_in_internal_memory_def)
  next
    case (Inr t)
    have "num_partitions config \<noteq> 0"
    proof
      assume "num_partitions config = 0"
      then have "\<exists>e. snd ?r = Inl e"
        by (simp add: build_from_keys_def build_from_hashes_def Let_def split: option.splits)
      with Inr show False by simp
    qed
    with a have m: "Minimal \<noteq> minimal_output config" by simp
    then have "\<exists>msg. partitioned_phf_build Minimal L (fst ?r) config elapsed2 pf = (pf, Inl (runtime_error msg))"
      by (cases Minimal) (simp_all add: partitioned_phf_build_def)
    with Inr show ?thesis
      by (cases ?r) (auto simp add: build_in_internal_memory_def)
  qed
qed

theorem invalid_config_raised_first_witness:
  "build_from_hashes example_library (\<lambda>i. (of_nat i, 0)) 2 (example_config\<lparr>num_partitions := 0\<rparr>) 0
       example_builder =
     (example_builder, Inl (invalid_argument ''number of partitions must be > 0'')) \<and>
   (\<exists>msg. partitioned_phf_build False example_library example_builder example_config 0 example_phf =
       (example_phf, Inl (runtime_error msg)))"
  using invalid_config_raised_first [of 2 example_library "example_config\<lparr>num_partitions := 0\<rparr>"
      "\<lambda>i. (of_nat i, 0)" 0 example_builder False id 0 example_phf]
    invalid_config_raised_first [of 2 example_library example_config
      "\<lambda>i. (of_nat i, 0)" 0 example_builder False id 0 example_phf]
  by (simp add: example_library_def example_config_def)

section \<open>The query of a single function\<close>

text \<open>
  C2. \<^verbatim>\<open>single_phf::position\<close> on a hash \<open>h\<close>: the bucket of \<open>first h\<close>, its pilot, the
  position \<open>pos = fastmod_u64 (second h XOR default_hash64 pilot seed) M m\<close>; the result
  is \<open>pos\<close> for a non-minimal function, and for a minimal one \<open>pos\<close> when \<open>pos < n\<close> and
  \<open>free_slots.access (pos - n)\<close> otherwise.
\<close>

theorem single_phf_position_formula:
  "single_phf_position Minimal L ph h =
     (let bucket = skew_bucket L (f_bucketer ph) (first L h);
          pilot = pilots_access L (f_pilots ph) bucket;
          pos = fastmod_u64 (second L h XOR default_hash64 L pilot (f_seed ph))
                  (f_M ph) (f_table_size ph)
      in if \<not> Minimal then pos
         else if pos < f_num_keys ph then pos
         else free_slots_access L (f_free_slots ph) (pos - f_num_keys ph))"
  by (simp add: single_phf_position_def Let_def)

theorem single_phf_position_formula_witness:
  "single_phf_position True example_library
     \<lparr>f_seed = 0, f_num_keys = 1, f_table_size = 2, f_M = computeM_u64 2, f_bucketer = (),
      f_pilots = [0], f_free_slots = [0]\<rparr> (5, 7) = 0"
  using single_phf_position_formula [where Minimal = True and L = example_library
      and h = "(5, 7)" and ph = "\<lparr>f_seed = 0, f_num_keys = 1, f_table_size = 2,
        f_M = computeM_u64 2, f_bucketer = (), f_pilots = [0], f_free_slots = [0]\<rparr>"]
  by (simp add: example_library_def fastmod_u64_def Let_def)

section \<open>The sizes and offsets of the partitions\<close>

lemma nat_and_pred:
  "0 < n \<Longrightarrow> (n AND (n - 1) = 0) = (\<exists>k. n = 2 ^ k)" for n :: nat
proof (induction n rule: less_induct)
  case (less n)
  show ?case
  proof (cases "even n")
    case True
    then obtain m where m: "n = 2 * m" by (elim evenE)
    with less.prems have m0: "0 < m" by simp
    have pred: "n - 1 = 2 * (m - 1) + 1" using m m0 by simp
    have "n AND (n - 1) = 2 * (m AND (m - 1))"
      unfolding pred unfolding m by (simp add: and_nat_rec [of "2 * m"] )
    then have "(n AND (n - 1) = 0) = (m AND (m - 1) = 0)" by simp
    also have "\<dots> = (\<exists>k. m = 2 ^ k)" using less.IH [of m] m m0 by simp
    also have "\<dots> = (\<exists>k. n = 2 ^ k)"
    proof
      assume "\<exists>k. m = 2 ^ k"
      then obtain k where "m = 2 ^ k" ..
      then have "n = 2 ^ Suc k" using m by simp
      then show "\<exists>k. n = 2 ^ k" ..
    next
      assume "\<exists>k. n = 2 ^ k"
      then obtain k where k: "n = 2 ^ k" ..
      with True have "k \<noteq> 0" by (cases k) auto
      then obtain j where "k = Suc j" by (cases k) auto
      with k m have "m = 2 ^ j" by simp
      then show "\<exists>k. m = 2 ^ k" ..
    qed
    finally show ?thesis .
  next
    case False
    then obtain m where m: "n = 2 * m + 1" by (elim oddE)
    have "n AND (n - 1) = 2 * m"
      unfolding m by (subst and_nat_rec) simp
    then have "(n AND (n - 1) = 0) = (m = 0)" by simp
    also have "\<dots> = (\<exists>k. n = 2 ^ k)"
    proof
      assume "m = 0" then have "n = 2 ^ 0" using m by simp
      then show "\<exists>k. n = 2 ^ k" ..
    next
      assume "\<exists>k. n = 2 ^ k"
      then obtain k where k: "n = 2 ^ k" ..
      with False have "k = 0" by (cases k) auto
      with k m show "m = 0" by simp
    qed
    finally show ?thesis .
  qed
qed

lemma word_and_pred:
  "(w AND (w - 1) = 0) = (w = 0 \<or> (\<exists>k. unat w = 2 ^ k))" for w :: u64
proof (cases "w = 0")
  case True then show ?thesis by simp
next
  case False
  then have pos: "0 < unat w" by (simp add: unat_gt_0)
  have "unat (w - 1) = unat w - 1" using False by (simp add: unat_minus_one)
  then have "unat (w AND (w - 1)) = unat w AND (unat w - 1)"
    by (simp add: unsigned_and_eq)
  then have "(w AND (w - 1) = 0) = (unat w AND (unat w - 1) = 0)"
    by (metis unat_eq_0)
  with nat_and_pred [OF pos] False show ?thesis by simp
qed


lemma uniform_bucket_less:
  "np \<noteq> 0 \<Longrightarrow> unat (uniform_bucket (uniform_bucketer_init np) x) < unat np"
proof -
  assume "np \<noteq> 0"
  then have "0 < np" by (simp add: word_greater_zero_iff)
  then have "x mod np < np" by (rule word_mod_less_divisor)
  then show ?thesis
    by (simp add: uniform_bucket_def uniform_bucketer_init_def fastmod_u64_def word_less_nat_alt)
qed

lemma partition_hashes_filter:
  assumes "\<forall>h\<in>set hs. unat (uniform_bucket ub (mx h)) < length ps"
  shows "partition_hashes mx ub hs ps =
           Inr (map (\<lambda>i. ps ! i @ filter (\<lambda>h. unat (uniform_bucket ub (mx h)) = i) hs)
                  [0..<length ps])"
  using assms
proof (induction hs arbitrary: ps)
  case Nil
  then show ?case by (simp add: map_nth)
next
  case (Cons h hs)
  let ?b = "unat (uniform_bucket ub (mx h))"
  have b: "?b < length ps" using Cons.prems by simp
  have "\<forall>x\<in>set hs. unat (uniform_bucket ub (mx x)) < length (ps[?b := ps ! ?b @ [h]])"
    using Cons.prems by simp
  from Cons.IH [OF this] b show ?case
    by (auto simp: Let_def nth_list_update)
qed

lemma partition_hashes_build:
  assumes "np \<noteq> 0"
  shows "partition_hashes (mix L) (uniform_bucketer_init np) hs (replicate (unat np) []) =
           Inr (map (partition_keys L np hs) [0..<unat np])"
  by (subst partition_hashes_filter) (simp_all add: uniform_bucket_less [OF assms] partition_keys_def)

lemma sum_length_filter_buckets:
  fixes g :: "'a \<Rightarrow> nat"
  assumes "\<forall>h\<in>set hs. g h < k"
  shows "(\<Sum>i<k. length (filter (\<lambda>h. g h = i) hs)) = length hs"
  using assms
proof (induction hs)
  case Nil
  then show ?case by simp
next
  case (Cons h hs)
  have "(\<Sum>i<k. length (filter (\<lambda>x. g x = i) (h # hs)))
        = (\<Sum>i<k. (if g h = i then 1 else 0) + length (filter (\<lambda>x. g x = i) hs))"
    by (intro sum.cong) auto
  also have "\<dots> = (\<Sum>i<k. (if g h = i then 1 else 0)) + (\<Sum>i<k. length (filter (\<lambda>x. g x = i) hs))"
    by (simp add: sum.distrib)
  also have "(\<Sum>i<k. (if g h = i then 1 else 0 :: nat)) = 1"
    using Cons.prems by simp
  finally show ?case using Cons by simp
qed

lemma sum_partition_keys:
  "np \<noteq> 0 \<Longrightarrow> (\<Sum>i<unat np. length (partition_keys L np hs i)) = length hs"
  unfolding partition_keys_def
  by (rule sum_length_filter_buckets) (simp add: uniform_bucket_less)


lemma size_partitions_fields:
  "size_partitions config ps is cum b = (b', r) \<Longrightarrow>
     m_seed b' = m_seed b \<and> m_num_keys b' = m_num_keys b \<and>
     m_num_partitions b' = m_num_partitions b \<and> m_bucketer b' = m_bucketer b \<and>
     m_builders b' = m_builders b \<and> length (m_offsets b') = length (m_offsets b)"
proof (induction "is" arbitrary: cum b)
  case Nil
  then show ?case by auto
next
  case (Cons i "is")
  show ?case
  proof (cases "partition_table_size (alpha config) (length (ps ! i))")
    case None
    with Cons.prems show ?thesis by auto
  next
    case (Some ts)
    with Cons.prems Cons.IH [of _ "b\<lparr>m_table_size := m_table_size b + ts,
               m_offsets := (m_offsets b)[i := cum]\<rparr>"]
    show ?thesis by simp
  qed
qed

lemma size_partitions_defined:
  "size_partitions config ps is cum b = (b', Inr u) \<Longrightarrow> i \<in> set is \<Longrightarrow>
     partition_table_size (alpha config) (length (ps ! i)) = Some (table_size_of config ps i)"
proof (induction "is" arbitrary: cum b)
  case Nil
  then show ?case by simp
next
  case (Cons k "is")
  then show ?case
    by (cases "partition_table_size (alpha config) (length (ps ! k))")
       (auto simp: table_size_of_def)
qed

lemma size_partitions_table_size:
  "size_partitions config ps is cum b = (b', Inr u) \<Longrightarrow>
     m_table_size b' = m_table_size b + sum_list (map (table_size_of config ps) is)"
proof (induction "is" arbitrary: cum b)
  case Nil
  then show ?case by simp
next
  case (Cons k "is")
  show ?case
  proof (cases "partition_table_size (alpha config) (length (ps ! k))")
    case None
    with Cons.prems show ?thesis by simp
  next
    case (Some ts)
    with Cons.prems Cons.IH [of _ "b\<lparr>m_table_size := m_table_size b + ts,
               m_offsets := (m_offsets b)[k := cum]\<rparr>"]
    show ?thesis by (simp add: table_size_of_def add.assoc)
  qed
qed

lemma size_partitions_untouched:
  "size_partitions config ps is cum b = (b', r) \<Longrightarrow> k \<notin> set is \<Longrightarrow>
     m_offsets b' ! k = m_offsets b ! k"
proof (induction "is" arbitrary: cum b)
  case Nil
  then show ?case by auto
next
  case (Cons i "is")
  show ?case
  proof (cases "partition_table_size (alpha config) (length (ps ! i))")
    case None
    with Cons.prems show ?thesis by auto
  next
    case (Some ts)
    with Cons.prems Cons.IH [of _ "b\<lparr>m_table_size := m_table_size b + ts,
               m_offsets := (m_offsets b)[i := cum]\<rparr>"]
    show ?thesis by simp
  qed
qed

lemma size_partitions_offsets:
  "size_partitions config ps is cum b = (b', Inr u) \<Longrightarrow> distinct is \<Longrightarrow>
     j < length is \<Longrightarrow> is ! j < length (m_offsets b) \<Longrightarrow>
     m_offsets b' ! (is ! j) = cum + sum_list (map (increment_of config ps) (take j is))"
proof (induction "is" arbitrary: cum b j)
  case Nil
  then show ?case by simp
next
  case (Cons i "is")
  show ?case
  proof (cases "partition_table_size (alpha config) (length (ps ! i))")
    case None
    with Cons.prems show ?thesis by simp
  next
    case (Some ts)
    let ?b1 = "b\<lparr>m_table_size := m_table_size b + ts, m_offsets := (m_offsets b)[i := cum]\<rparr>"
    let ?c1 = "cum + (if minimal_output config then of_nat (length (ps ! i)) else ts)"
    have run: "size_partitions config ps is ?c1 ?b1 = (b', Inr u)"
      using Cons.prems(1) Some by simp
    have inc: "?c1 = cum + increment_of config ps i"
      using Some by (simp add: increment_of_def table_size_of_def)
    show ?thesis
    proof (cases j)
      case 0
      have "i \<notin> set is" using Cons.prems(2) by simp
      from size_partitions_untouched [OF run this] Cons.prems(4) 0
      show ?thesis by simp
    next
      case (Suc j')
      have "m_offsets b' ! (is ! j') = ?c1 + sum_list (map (increment_of config ps) (take j' is))"
        using Cons.prems Suc by (intro Cons.IH [OF run]) simp_all
      then show ?thesis using Suc inc by (simp add: add.assoc)
    qed
  qed
qed


lemma actual_num_partitions_nonzero:
  "p \<noteq> 0 \<Longrightarrow> actual_num_partitions mps n p \<noteq> 0"
  by (simp add: actual_num_partitions_def Let_def)

lemma sized_builder_simps [simp]:
  "m_bucketer (sized_builder L n config np b) = uniform_bucketer_init np"
  "m_seed (sized_builder L n config np b) = seed config"
  "m_num_keys (sized_builder L n config np b) = n"
  "m_num_partitions (sized_builder L n config np b) = np"
  "m_table_size (sized_builder L n config np b) = 0"
  "length (m_offsets (sized_builder L n config np b)) = unat np"
  "length (m_builders (sized_builder L n config np b)) = unat np"
  by (simp_all add: sized_builder_def resize_def)

lemma build_from_hashes_Inr:
  assumes "build_from_hashes L hashes n config el b = (b', Inr t)"
  defines "np \<equiv> actual_num_partitions (min_partition_size L) n (num_partitions config)"
  defines "ps \<equiv> map (partition_keys L np (map hashes [0..<unat n])) [0..<unat np]"
  shows "n \<noteq> 0 \<and> check_hash_collision_probability L n = None \<and> num_partitions config \<noteq> 0 \<and>
         np \<noteq> 0 \<and>
         (\<exists>b2 pc builders t'.
            size_partitions config ps [0..<unat np] 0 (sized_builder L n config np b) = (b2, Inr ()) \<and>
            partition_config L config (seed config) n np = Some pc \<and>
            build_partitions L ps (m_builders b2) pc (num_threads config) = (builders, Inr t') \<and>
            b' = b2\<lparr>m_builders := builders\<rparr> \<and>
            t = fresh_timings\<lparr>partitioning_seconds := el,
                  mapping_ordering_seconds := mapping_ordering_seconds t',
                  searching_seconds := searching_seconds t'\<rparr>)"
proof -
  have n: "n \<noteq> 0" and chk: "check_hash_collision_probability L n = None"
    and p: "num_partitions config \<noteq> 0"
    using assms(1) by (auto simp: build_from_hashes_def split: if_splits option.splits)
  have np: "np \<noteq> 0" unfolding np_def using p by (rule actual_num_partitions_nonzero)
  have ph: "partition_hashes (mix L) (uniform_bucketer_init np) (map hashes [0..<unat n])
              (replicate (unat np) []) = Inr ps"
    unfolding ps_def by (rule partition_hashes_build [OF np])
  obtain b2 r where sz: "size_partitions config ps [0..<unat np] 0 (sized_builder L n config np b) = (b2, r)"
    by (cases "size_partitions config ps [0..<unat np] 0 (sized_builder L n config np b)")
  have seed2: "m_seed b2 = seed config"
    using size_partitions_fields [OF sz] by (simp add: sized_builder_def)
  have unf: "build_from_hashes L hashes n config el b =
      (case r of Inl e \<Rightarrow> (b2, Inl e)
       | Inr u \<Rightarrow>
        (case partition_config L config (seed config) n np of
           None \<Rightarrow> (b2, Inl undefined_behaviour)
         | Some pc \<Rightarrow>
        (case build_partitions L ps (m_builders b2) pc (num_threads config) of
           (builders, Inl e) \<Rightarrow> (b2\<lparr>m_builders := builders\<rparr>, Inl e)
         | (builders, Inr t) \<Rightarrow>
             (b2\<lparr>m_builders := builders\<rparr>,
              Inr (fresh_timings\<lparr>partitioning_seconds := el,
                     mapping_ordering_seconds := mapping_ordering_seconds t,
                     searching_seconds := searching_seconds t\<rparr>)))))"
    using n chk p ph sz seed2
    by (simp add: build_from_hashes_def Let_def np_def [symmetric] sized_builder_def [symmetric]
        del: partition_hashes.simps size_partitions.simps split: sum.splits)
  from assms(1) show ?thesis
    unfolding unf using n chk p np sz
    by (auto split: sum.splits option.splits prod.splits)
qed


lemma sum_list_map_upt: "sum_list (map g [0..<k]) = (\<Sum>j<k. g j)" for g :: "nat \<Rightarrow> 'a::comm_monoid_add"
  by (simp add: interv_sum_list_conv_sum_set_nat atLeast0LessThan)

lemma build_from_hashes_sizes:
  assumes "build_from_hashes L hashes n config el b = (b', Inr t)"
  defines "np \<equiv> m_num_partitions b'"
  defines "P \<equiv> partition_keys L np (map hashes [0..<unat n])"
  defines "ps \<equiv> map P [0..<unat np]"
  shows "np = actual_num_partitions (min_partition_size L) n (num_partitions config)"
    and "np \<noteq> 0" and "length (m_offsets b') = unat np"
    and "m_table_size b' = (\<Sum>j<unat np. table_size_of config ps j)"
    and "\<And>j. j < unat np \<Longrightarrow>
           partition_table_size (alpha config) (length (P j)) = Some (table_size_of config ps j)"
    and "\<And>i. i < unat np \<Longrightarrow> m_offsets b' ! i = (\<Sum>j<i. increment_of config ps j)"
    and "(\<Sum>j<unat np. length (P j)) = unat n"
proof -
  define np0 where "np0 = actual_num_partitions (min_partition_size L) n (num_partitions config)"
  define ps0 where "ps0 = map (partition_keys L np0 (map hashes [0..<unat n])) [0..<unat np0]"
  from build_from_hashes_Inr [OF assms(1)] obtain b2 pc builders t' where
    np0: "np0 \<noteq> 0" and
    sz: "size_partitions config ps0 [0..<unat np0] 0 (sized_builder L n config np0 b) = (b2, Inr ())"
    and b': "b' = b2\<lparr>m_builders := builders\<rparr>"
    unfolding np0_def ps0_def by blast
  note fl = size_partitions_fields [OF sz]
  have eq: "np = np0" unfolding np_def b' using fl by simp
  then show "np = actual_num_partitions (min_partition_size L) n (num_partitions config)"
    by (simp add: np0_def)
  have ps: "ps = ps0" by (simp add: ps_def ps0_def P_def eq)
  show "np \<noteq> 0" using np0 eq by simp
  show "length (m_offsets b') = unat np" using fl eq b' by simp
  show "m_table_size b' = (\<Sum>j<unat np. table_size_of config ps j)"
    using size_partitions_table_size [OF sz] by (simp add: b' eq ps sum_list_map_upt)
  show "partition_table_size (alpha config) (length (P j)) = Some (table_size_of config ps j)"
    if "j < unat np" for j
  proof -
    have "j \<in> set [0..<unat np0]" using that eq by simp
    from size_partitions_defined [OF sz this] that show ?thesis
      by (simp add: ps [symmetric] ps_def)
  qed
  show "m_offsets b' ! i = (\<Sum>j<i. increment_of config ps j)" if "i < unat np" for i
  proof -
    have "m_offsets b2 ! ([0..<unat np0] ! i) =
        0 + sum_list (map (increment_of config ps0) (take i [0..<unat np0]))"
      using that eq by (intro size_partitions_offsets [OF sz]) simp_all
    then show ?thesis using that eq by (simp add: b' ps take_upt sum_list_map_upt)
  qed
  show "(\<Sum>j<unat np. length (P j)) = unat n"
    unfolding P_def using sum_partition_keys [OF \<open>np \<noteq> 0\<close>, of L "map hashes [0..<unat n]"] by simp
qed

lemma unat_sum_words:
  fixes g :: "nat \<Rightarrow> u64"
  shows "(\<Sum>j<k. unat (g j)) < 2 ^ 64 \<Longrightarrow> unat (\<Sum>j<k. g j) = (\<Sum>j<k. unat (g j))"
proof (induction k)
  case 0
  then show ?case by simp
next
  case (Suc k)
  then have "unat (\<Sum>j<k. g j) = (\<Sum>j<k. unat (g j))" by simp
  moreover have "unat ((\<Sum>j<k. g j) + g k) = unat (\<Sum>j<k. g j) + unat (g k)"
    using Suc.prems calculation by (simp add: unat_add_lem [THEN iffD1])
  ultimately show ?case by simp
qed

lemma sum_of_nat_word: "(\<Sum>j<k. (of_nat (g j) :: u64)) = of_nat (\<Sum>j<k. g j)" for k :: nat
  by (induction k) simp_all


text \<open>
  C3. After a successful \<^verbatim>\<open>build_from_hashes\<close>, with \<open>P j\<close> the hashes of partition \<open>j\<close> and
  \<open>m j\<close> its table size: \<open>m_offsets\<close> has one entry per partition; with \<open>minimal_output\<close>
  the offset of partition \<open>i\<close> is the sum of the sizes \<open>|P j|\<close> for \<open>j < i\<close>, without it the
  sum of the \<open>m j\<close> for \<open>j < i\<close>, computed in \<^verbatim>\<open>uint64_t\<close> and equal to the sum of the numbers
  when that is below \<open>2^64\<close>; and the sizes \<open>|P j|\<close> of all partitions add up to \<open>n\<close>.
\<close>

theorem offsets_are_prefix_sums:
  assumes "build_from_hashes L hashes n config el b = (b', Inr t)"
  defines "np \<equiv> m_num_partitions b'"
  defines "P \<equiv> partition_keys L np (map hashes [0..<unat n])"
  shows "length (m_offsets b') = unat np \<and>
         (\<Sum>j<unat np. length (P j)) = unat n \<and>
         (\<exists>m. (\<forall>j<unat np. partition_table_size (alpha config) (length (P j)) = Some (m j)) \<and>
              (\<forall>i<unat np.
                 (minimal_output config \<longrightarrow> unat (m_offsets b' ! i) = (\<Sum>j<i. length (P j))) \<and>
                 (\<not> minimal_output config \<longrightarrow>
                    m_offsets b' ! i = (\<Sum>j<i. m j) \<and>
                    ((\<Sum>j<i. unat (m j)) < 2 ^ 64 \<longrightarrow>
                       unat (m_offsets b' ! i) = (\<Sum>j<i. unat (m j))))))"
proof -
  define ps where "ps = map P [0..<unat np]"
  note bs = build_from_hashes_sizes [OF assms(1), folded np_def, folded P_def, folded ps_def]
  have len: "length (m_offsets b') = unat np" by (rule bs(3))
  have total: "(\<Sum>j<unat np. length (P j)) = unat n" by (rule bs(7))
  have defined: "\<forall>j<unat np. partition_table_size (alpha config) (length (P j)) =
      Some (table_size_of config ps j)"
    using bs(5) by simp
  have offs: "(minimal_output config \<longrightarrow> unat (m_offsets b' ! i) = (\<Sum>j<i. length (P j))) \<and>
      (\<not> minimal_output config \<longrightarrow>
         m_offsets b' ! i = (\<Sum>j<i. table_size_of config ps j) \<and>
         ((\<Sum>j<i. unat (table_size_of config ps j)) < 2 ^ 64 \<longrightarrow>
            unat (m_offsets b' ! i) = (\<Sum>j<i. unat (table_size_of config ps j))))"
    if i: "i < unat np" for i
  proof (cases "minimal_output config")
    case True
    have "(\<Sum>j<i. length (P j)) \<le> (\<Sum>j<unat np. length (P j))"
      using i by (intro sum_mono2) auto
    also have "\<dots> < 2 ^ 64" unfolding total using unsigned_less [of n] by simp
    finally have small: "(\<Sum>j<i. length (P j)) < 2 ^ 64" .
    have "m_offsets b' ! i = (\<Sum>j<i. of_nat (length (ps ! j)))"
      using bs(6) [OF i] True by (simp add: increment_of_def)
    also have "\<dots> = (\<Sum>j<i. of_nat (length (P j)))"
      using i by (intro sum.cong) (simp_all add: ps_def)
    also have "\<dots> = of_nat (\<Sum>j<i. length (P j))" by (rule sum_of_nat_word)
    finally have e: "m_offsets b' ! i = of_nat (\<Sum>j<i. length (P j))" .
    have "unat (m_offsets b' ! i) = (\<Sum>j<i. length (P j))"
      by (rule of_nat_inverse [OF e [symmetric]]) (use small in simp)
    with True show ?thesis by simp
  next
    case False
    have "m_offsets b' ! i = (\<Sum>j<i. table_size_of config ps j)"
      using bs(6) [OF i] False by (simp add: increment_of_def)
    with False unat_sum_words [where k = i and g = "table_size_of config ps"] show ?thesis by simp
  qed
  from len total defined offs show ?thesis by blast
qed


lemmas eval_defs = build_from_hashes_def actual_num_partitions_def u64_to_double_def nat_to_double_exact
  d_div_def d_mul_def d_add_def d_ceil_def example_log2_def double_to_u64_def partition_table_size_def partition_config_def
  build_partitions_def num_partitions_per_thread_def uniform_bucketer_init_def uniform_bucket_def
  fastmod_u64_def computeM_u64_def resize_def fresh_timings_def Let_def upt_rec replicate_numeral
  example_library_def example_config_def example_builder_def example_single_build_def example_hashes_def

lemma example_run:
  "build_from_hashes example_library example_hashes 2 example_config 0 example_builder =
     (example_built,
      Inr \<lparr>partitioning_seconds = 0, mapping_ordering_seconds = 2, searching_seconds = 4,
           encoding_seconds = 0\<rparr>)"
  by (simp add: eval_defs example_built_def)

lemma example_partition_keys:
  "partition_keys example_library 2 (map example_hashes [0..<2]) 0 = [(0, 0)]"
  "partition_keys example_library 2 (map example_hashes [0..<2]) (Suc 0) = [(1, 0)]"
  by (simp_all add: partition_keys_def eval_defs)

theorem offsets_are_prefix_sums_witness:
  "build_from_hashes example_library example_hashes 2 example_config 0 example_builder =
     (example_built,
      Inr \<lparr>partitioning_seconds = 0, mapping_ordering_seconds = 2, searching_seconds = 4,
           encoding_seconds = 0\<rparr>) \<and>
   length (m_offsets example_built) = 2 \<and>
   unat (m_offsets example_built ! 1) =
     (\<Sum>j<1. length (partition_keys example_library 2 (map example_hashes [0..<2]) j))"
proof -
  from offsets_are_prefix_sums [OF example_run]
  have len: "length (m_offsets example_built) = unat (m_num_partitions example_built)"
    and "\<forall>i<unat (m_num_partitions example_built).
           minimal_output example_config \<longrightarrow>
           unat (m_offsets example_built ! i) =
             (\<Sum>j<i. length (partition_keys example_library (m_num_partitions example_built)
                (map example_hashes [0..<unat (2 :: u64)]) j))"
    by blast+
  from this(2) [rule_format, of 1] len example_run show ?thesis
    by (simp add: example_built_def example_config_def example_partition_keys)
qed


lemma d_div_nonneg: "0 \<le> x \<Longrightarrow> 0 < a \<Longrightarrow> 0 \<le> d_div x a"
  by (simp add: d_div_def round_double_nonneg)

lemma nat_to_double_nonneg: "0 \<le> nat_to_double n"
  by (simp add: nat_to_double_def round_double_nonneg)

lemma int_power_of_two_nat: "0 \<le> i \<Longrightarrow> (\<exists>k. nat i = 2 ^ k) = (\<exists>k. i = 2 ^ k)" for i :: int
proof
  assume "0 \<le> i" "\<exists>k. nat i = 2 ^ k"
  then obtain k where "nat i = 2 ^ k" by blast
  with \<open>0 \<le> i\<close> have "i = int (2 ^ k)" by linarith
  then have "i = 2 ^ k" by simp
  then show "\<exists>k. i = 2 ^ k" ..
next
  assume "\<exists>k. i = 2 ^ k"
  then obtain k where "i = 2 ^ k" ..
  then have "nat i = 2 ^ k" by (simp add: nat_power_eq)
  then show "\<exists>k. nat i = 2 ^ k" ..
qed

lemma partition_table_size_Some:
  assumes "partition_table_size a n = Some m" and "0 < a"
  defines "tr \<equiv> \<lfloor>d_div (nat_to_double n) a\<rfloor>"
  shows "0 \<le> tr \<and> tr < 2 ^ 64 \<and>
         unat m = nat (if tr = 0 \<or> (\<exists>k. tr = 2 ^ k) then tr + 1 else tr)"
proof -
  define q where "q = d_div (nat_to_double n) a"
  have q0: "0 \<le> q" unfolding q_def using nat_to_double_nonneg assms(2) by (rule d_div_nonneg)
  have conv: "double_to_u64 q \<noteq> None"
    using assms(1,2) by (auto simp: partition_table_size_def q_def split: option.splits)
  then have q64: "q < 2 ^ 64" by (auto simp: double_to_u64_def split: if_splits)
  have tr0: "0 \<le> tr" using q0 by (simp add: tr_def q_def)
  have "real_of_int tr \<le> q" by (simp add: tr_def q_def)
  then have "real_of_int tr < real_of_int (2 ^ 64)" using q64 by simp
  then have tr64: "tr < 2 ^ 64" by (simp only: of_int_less_iff)
  define w :: u64 where "w = word_of_int tr"
  have uw: "unat w = nat tr"
    using tr0 tr64 by (simp add: w_def unat_eq_nat_uint uint_word_of_int take_bit_int_eq_self)
  have m: "m = (if w AND (w - 1) = 0 then w + 1 else w)"
    using assms(1,2) q0 q64
    by (auto simp: partition_table_size_def double_to_u64_def w_def tr_def q_def
        split: option.splits if_splits)
  have "(w = 0) = (unat w = 0)" by (simp add: unat_eq_0)
  also have "\<dots> = (tr = 0)" using uw tr0 by simp
  finally have w0: "(w = 0) = (tr = 0)" .
  have "(w AND (w - 1) = 0) = (w = 0 \<or> (\<exists>k. unat w = 2 ^ k))" by (rule word_and_pred)
  also have "\<dots> = (tr = 0 \<or> (\<exists>k. tr = 2 ^ k))"
    unfolding w0 uw int_power_of_two_nat [OF tr0] ..
  finally have test: "(w AND (w - 1) = 0) = (tr = 0 \<or> (\<exists>k. tr = 2 ^ k))" .
  show ?thesis
  proof (cases "tr = 0 \<or> (\<exists>k. tr = 2 ^ k)")
    case False
    with test m uw tr0 tr64 show ?thesis by simp
  next
    case True
    have "tr + 1 < 2 ^ 64"
    proof (cases "tr = 0")
      case True then show ?thesis by simp
    next
      case False
      with True obtain k where k: "tr = 2 ^ k" by blast
      with tr64 have lt: "(2::int) ^ k < 2 ^ 64" by simp
      have "k < 64" by (rule power_less_imp_less_exp [OF _ lt]) simp
      then have "k \<le> 63" by simp
      then have "(2::int) ^ k \<le> 2 ^ 63" by (intro power_increasing) simp_all
      with k show ?thesis by simp
    qed
    then have "unat w + 1 < 2 ^ 64" using uw tr0 by (simp add: nat_less_iff)
    then have "unat (w + 1) = unat w + 1" by (simp add: unat_add_lem [THEN iffD1])
    with True test m uw tr0 tr64 show ?thesis by (simp add: nat_add_distrib)
  qed
qed

lemma partition_table_size_nonzero:
  assumes "partition_table_size a n = Some m"
  shows "m \<noteq> 0"
proof -
  from assms have "\<exists>w. m = (if w AND (w - 1) = 0 then w + 1 else w)"
    by (cases "double_to_u64 (d_div (nat_to_double n) a)")
       (auto simp: partition_table_size_def split: if_splits)
  then obtain w where m: "m = (if w AND (w - 1) = 0 then w + 1 else w)" ..
  show ?thesis
  proof
    assume "m = 0"
    show False
    proof (cases "w AND (w - 1) = 0")
      case True
      with m \<open>m = 0\<close> have "w = - 1" by (simp add: eq_neg_iff_add_eq_0)
      with True show False by simp
    next
      case False
      with m \<open>m = 0\<close> show False by simp
    qed
  qed
qed

lemma partition_table_size_alpha:
  "partition_table_size a n = Some m \<Longrightarrow> a \<noteq> 0"
  by (auto simp: partition_table_size_def)

lemma partition_table_size_empty: "a \<noteq> 0 \<Longrightarrow> partition_table_size a 0 = Some 1"
  by (simp add: partition_table_size_def d_div_def nat_to_double_def double_to_u64_def)


text \<open>
  C4, as amended. For \<open>alpha > 0\<close> and every partition \<open>j\<close>, the table size \<open>m j\<close> is the
  quotient \<open>|P j| / alpha\<close> of the doubles, truncated (the floor \<open>tr j\<close>, not the ceiling),
  and one more when \<open>tr j\<close> is zero or a power of two; \<open>m_table_size\<close> is the sum of the
  \<open>m j\<close> in \<^verbatim>\<open>uint64_t\<close>, the sum of the numbers when that is below \<open>2^64\<close>.
\<close>

theorem table_sizes_are_truncated_quotients:
  assumes "build_from_hashes L hashes n config el b = (b', Inr t)" and "0 < alpha config"
  defines "np \<equiv> m_num_partitions b'"
  defines "P \<equiv> partition_keys L np (map hashes [0..<unat n])"
  defines "tr \<equiv> \<lambda>j. \<lfloor>d_div (nat_to_double (length (P j))) (alpha config)\<rfloor>"
  shows "\<exists>m. (\<forall>j<unat np.
               0 \<le> tr j \<and> tr j < 2 ^ 64 \<and>
               unat (m j) = nat (if tr j = 0 \<or> (\<exists>k. tr j = 2 ^ k) then tr j + 1 else tr j)) \<and>
             m_table_size b' = (\<Sum>j<unat np. m j) \<and>
             ((\<Sum>j<unat np. unat (m j)) < 2 ^ 64 \<longrightarrow>
                unat (m_table_size b') = (\<Sum>j<unat np. unat (m j)))"
proof -
  define ps where "ps = map P [0..<unat np]"
  note bs = build_from_hashes_sizes [OF assms(1), folded np_def, folded P_def, folded ps_def]
  let ?m = "table_size_of config ps"
  have "0 \<le> tr j \<and> tr j < 2 ^ 64 \<and>
        unat (?m j) = nat (if tr j = 0 \<or> (\<exists>k. tr j = 2 ^ k) then tr j + 1 else tr j)"
    if "j < unat np" for j
    unfolding tr_def by (rule partition_table_size_Some [OF bs(5) [OF that] assms(2)])
  moreover have "m_table_size b' = (\<Sum>j<unat np. ?m j)" by (rule bs(4))
  moreover have "(\<Sum>j<unat np. unat (?m j)) < 2 ^ 64 \<longrightarrow>
                unat (m_table_size b') = (\<Sum>j<unat np. unat (?m j))"
    unfolding bs(4) using unat_sum_words [where k = "unat np" and g = ?m] by simp
  ultimately show ?thesis by blast
qed

lemma binade_16_3: "binade (16 / 3) = 2"
  by (rule binade_eqI) simp_all

lemma round_double_16_3: "round_double (16 / 3) = 6004799503160661 / 1125899906842624"
  by (simp add: round_double_def ulp_def binade_16_3 round_half_even_def Let_def)

lemma log_2_4: "log 2 4 = 2"
  using log_pow_cancel [of 2 2] by simp

lemma example_run34:
  "build_from_hashes example_library example_hashes 4 example_config34 0 example_builder =
     (\<lparr>m_seed = 0, m_num_keys = 4, m_table_size = 5, m_num_partitions = 1,
       m_bucketer = uniform_bucketer_init 1, m_offsets = [0],
       m_builders =
         [\<lparr>sb_seed = 0, sb_num_keys = 4, sb_table_size = 1, sb_bucketer = (),
           sb_pilots = [0], sb_free_slots = []\<rparr>]\<rparr>,
      Inr \<lparr>partitioning_seconds = 0, mapping_ordering_seconds = 1, searching_seconds = 2,
           encoding_seconds = 0\<rparr>)"
  by (simp add: eval_defs example_config34_def round_double_16_3 log_2_4)

text \<open>
  C4 as stated fails. Four keys in one partition with \<open>alpha = 0.75\<close>: the quotient is \<open>5.33\<close>, the builder's
  table size is 5 and the ceiling is 6.
\<close>

theorem table_size_ceiling_counterexample:
  "m_table_size (fst (build_from_hashes example_library example_hashes 4 example_config34 0
      example_builder)) = 5 \<and>
   m_num_partitions (fst (build_from_hashes example_library example_hashes 4 example_config34 0
      example_builder)) = 1 \<and>
   alpha example_config34 = 3 / 4 \<and> \<lceil>(4 :: real) / (3 / 4)\<rceil> = 6"
  by (simp add: example_run34) (simp add: example_config34_def)


lemma example_alpha: "0 < alpha example_config"
  by (simp add: example_config_def)

theorem table_sizes_are_truncated_quotients_witness:
  "build_from_hashes example_library example_hashes 2 example_config 0 example_builder =
     (example_built,
      Inr \<lparr>partitioning_seconds = 0, mapping_ordering_seconds = 2, searching_seconds = 4,
           encoding_seconds = 0\<rparr>) \<and>
   0 < alpha example_config \<and>
   (\<exists>m. (\<forall>j<2. unat (m j) =
             nat (if \<lfloor>d_div (nat_to_double (length (partition_keys example_library 2
                        (map example_hashes [0..<2]) j))) 1\<rfloor> = 0 \<or>
                     (\<exists>k. \<lfloor>d_div (nat_to_double (length (partition_keys example_library 2
                        (map example_hashes [0..<2]) j))) 1\<rfloor> = 2 ^ k)
                  then \<lfloor>d_div (nat_to_double (length (partition_keys example_library 2
                        (map example_hashes [0..<2]) j))) 1\<rfloor> + 1
                  else \<lfloor>d_div (nat_to_double (length (partition_keys example_library 2
                        (map example_hashes [0..<2]) j))) 1\<rfloor>)) \<and>
        m_table_size example_built = (\<Sum>j<2. m j))"
proof -
  from table_sizes_are_truncated_quotients [OF example_run example_alpha]
  obtain m where
    "\<forall>j<unat (m_num_partitions example_built).
        unat (m j) =
          nat (if \<lfloor>d_div (nat_to_double (length (partition_keys example_library
                       (m_num_partitions example_built)
                       (map example_hashes [0..<unat (2 :: u64)]) j))) (alpha example_config)\<rfloor> = 0 \<or>
                  (\<exists>k. \<lfloor>d_div (nat_to_double (length (partition_keys example_library
                       (m_num_partitions example_built)
                       (map example_hashes [0..<unat (2 :: u64)]) j))) (alpha example_config)\<rfloor> = 2 ^ k)
               then \<lfloor>d_div (nat_to_double (length (partition_keys example_library
                       (m_num_partitions example_built)
                       (map example_hashes [0..<unat (2 :: u64)]) j))) (alpha example_config)\<rfloor> + 1
               else \<lfloor>d_div (nat_to_double (length (partition_keys example_library
                       (m_num_partitions example_built)
                       (map example_hashes [0..<unat (2 :: u64)]) j))) (alpha example_config)\<rfloor>)"
    and "m_table_size example_built = (\<Sum>j<unat (m_num_partitions example_built). m j)"
    by blast
  then have "(\<forall>j<2. unat (m j) =
             nat (if \<lfloor>d_div (nat_to_double (length (partition_keys example_library 2
                        (map example_hashes [0..<2]) j))) 1\<rfloor> = 0 \<or>
                     (\<exists>k. \<lfloor>d_div (nat_to_double (length (partition_keys example_library 2
                        (map example_hashes [0..<2]) j))) 1\<rfloor> = 2 ^ k)
                  then \<lfloor>d_div (nat_to_double (length (partition_keys example_library 2
                        (map example_hashes [0..<2]) j))) 1\<rfloor> + 1
                  else \<lfloor>d_div (nat_to_double (length (partition_keys example_library 2
                        (map example_hashes [0..<2]) j))) 1\<rfloor>)) \<and>
        m_table_size example_built = (\<Sum>j<2. m j)"
    by (simp add: example_built_def example_config_def)
  then show ?thesis using example_run example_alpha by blast
qed

text \<open>
  C10. After a successful \<^verbatim>\<open>build_from_hashes\<close> every partition has a table size
  \<open>m j \<ge> 1\<close>, an empty one exactly 1, and \<open>m_table_size\<close> is their sum; with
  \<open>minimal_output\<close> the offset after an empty partition equals its own, without it
  the next offset is the offset plus \<open>m i\<close>, so the two differ by at least 1.
\<close>

theorem empty_partition_table_size:
  assumes "build_from_hashes L hashes n config el b = (b', Inr t)"
  defines "np \<equiv> m_num_partitions b'"
  defines "P \<equiv> partition_keys L np (map hashes [0..<unat n])"
  shows "\<exists>m. (\<forall>j<unat np.
               partition_table_size (alpha config) (length (P j)) = Some (m j) \<and>
               1 \<le> unat (m j) \<and> (P j = [] \<longrightarrow> m j = 1)) \<and>
             m_table_size b' = (\<Sum>j<unat np. m j) \<and>
             (\<forall>i. Suc i < unat np \<longrightarrow>
                (minimal_output config \<and> P i = [] \<longrightarrow> m_offsets b' ! Suc i = m_offsets b' ! i) \<and>
                (\<not> minimal_output config \<longrightarrow>
                   m_offsets b' ! Suc i = m_offsets b' ! i + m i \<and>
                   m_offsets b' ! Suc i \<noteq> m_offsets b' ! i \<and>
                   1 \<le> unat (m_offsets b' ! Suc i - m_offsets b' ! i)))"
proof -
  define ps where "ps = map P [0..<unat np]"
  note bs = build_from_hashes_sizes [OF assms(1), folded np_def, folded P_def, folded ps_def]
  let ?m = "table_size_of config ps"
  have part: "partition_table_size (alpha config) (length (P j)) = Some (?m j) \<and>
        1 \<le> unat (?m j) \<and> (P j = [] \<longrightarrow> ?m j = 1)" if j: "j < unat np" for j
  proof -
    note d = bs(5) [OF j]
    have "?m j \<noteq> 0" using d by (rule partition_table_size_nonzero)
    then have "1 \<le> unat (?m j)" by (simp add: Suc_le_eq unat_gt_0)
    moreover have "?m j = 1" if "P j = []"
      using d that partition_table_size_empty [OF partition_table_size_alpha [OF d]] by simp
    ultimately show ?thesis using d by blast
  qed
  have step: "m_offsets b' ! Suc i = m_offsets b' ! i + increment_of config ps i"
    if "Suc i < unat np" for i
    using bs(6) [OF that] bs(6) [of i] that by simp
  have offs: "(minimal_output config \<and> P i = [] \<longrightarrow> m_offsets b' ! Suc i = m_offsets b' ! i) \<and>
        (\<not> minimal_output config \<longrightarrow>
           m_offsets b' ! Suc i = m_offsets b' ! i + ?m i \<and>
           m_offsets b' ! Suc i \<noteq> m_offsets b' ! i \<and>
           1 \<le> unat (m_offsets b' ! Suc i - m_offsets b' ! i))" if i: "Suc i < unat np" for i
  proof -
    have i': "i < unat np" using i by simp
    have psi: "ps ! i = P i" using i' by (simp add: ps_def)
    have nz: "?m i \<noteq> 0" using part [OF i'] by (auto simp: unat_eq_0)
    show ?thesis
    proof (cases "minimal_output config")
      case True
      with step [OF i] psi show ?thesis by (simp add: increment_of_def)
    next
      case False
      with step [OF i] have e: "m_offsets b' ! Suc i = m_offsets b' ! i + ?m i"
        by (simp add: increment_of_def)
      then have "m_offsets b' ! Suc i - m_offsets b' ! i = ?m i" by simp
      with e nz part [OF i'] False show ?thesis by simp
    qed
  qed
  from part bs(4) offs show ?thesis by blast
qed


lemma example_run_even:
  "build_from_hashes example_library example_hashes_even 2 example_config 0 example_builder =
     (example_built_even,
      Inr \<lparr>partitioning_seconds = 0, mapping_ordering_seconds = 2, searching_seconds = 4,
           encoding_seconds = 0\<rparr>)"
  by (simp add: eval_defs example_built_even_def example_hashes_even_def)

lemma example_partition_keys_even:
  "partition_keys example_library 2 (map example_hashes_even [0..<2]) 0 = [(0, 0), (2, 0)]"
  "partition_keys example_library 2 (map example_hashes_even [0..<2]) (Suc 0) = []"
  by (simp_all add: partition_keys_def eval_defs example_hashes_even_def)

theorem empty_partition_table_size_witness:
  "build_from_hashes example_library example_hashes_even 2 example_config 0 example_builder =
     (example_built_even,
      Inr \<lparr>partitioning_seconds = 0, mapping_ordering_seconds = 2, searching_seconds = 4,
           encoding_seconds = 0\<rparr>) \<and>
   partition_keys example_library 2 (map example_hashes_even [0..<2]) (Suc 0) = [] \<and>
   partition_table_size (alpha example_config)
     (length (partition_keys example_library 2 (map example_hashes_even [0..<2]) (Suc 0))) = Some 1"
proof -
  from empty_partition_table_size [OF example_run_even]
  obtain m where
    "\<forall>j<unat (m_num_partitions example_built_even).
        partition_table_size (alpha example_config)
          (length (partition_keys example_library (m_num_partitions example_built_even)
             (map example_hashes_even [0..<unat (2 :: u64)]) j)) = Some (m j) \<and>
        (partition_keys example_library (m_num_partitions example_built_even)
             (map example_hashes_even [0..<unat (2 :: u64)]) j = [] \<longrightarrow> m j = 1)"
    by blast
  from this [rule_format, of "Suc 0"] example_run_even show ?thesis
    by (simp add: example_built_even_def example_partition_keys_even)
qed

section \<open>The partition count and the configuration of the single builders\<close>

lemma round_half_even_bounds:
  "real_of_int (round_half_even q) \<le> q + 1 / 2" "q - 1 / 2 \<le> real_of_int (round_half_even q)"
  by (simp_all add: round_half_even_def Let_def) linarith+

lemma binade_le_52: "\<bar>x\<bar> < 2 ^ 53 \<Longrightarrow> binade x \<le> 52"
proof (cases "x = 0")
  case True
  then show ?thesis by (simp add: binade_def log_def)
next
  case False
  assume a: "\<bar>x\<bar> < 2 ^ 53"
  from False have ax: "0 < \<bar>x\<bar>" by simp
  have "2 powi \<lfloor>log 2 \<bar>x\<bar>\<rfloor> \<le> \<bar>x\<bar>" using floor_log2_bounds [OF ax] by simp
  also have "\<bar>x\<bar> < 2 powi 53" using a by simp
  finally have "\<lfloor>log 2 \<bar>x\<bar>\<rfloor> < 53"
    using power_int_increasing [of 53 "\<lfloor>log 2 \<bar>x\<bar>\<rfloor>" "2::real"]
    by (cases "\<lfloor>log 2 \<bar>x\<bar>\<rfloor> < 53") simp_all
  then show ?thesis by (simp add: binade_def)
qed

lemma int_div_ulp:
  assumes "\<bar>x\<bar> < 2 ^ 53"
  shows "\<exists>K. real_of_int k / ulp x = real_of_int K"
proof -
  define j where "j = nat (52 - binade x)"
  have "binade x - 52 = - int j" using binade_le_52 [OF assms] by (simp add: j_def)
  then have "ulp x = 2 powi (- int j)" by (simp add: ulp_def)
  then have "ulp x = 1 / 2 ^ j" by (simp add: power_int_minus inverse_eq_divide)
  then have "real_of_int k / ulp x = real_of_int (k * 2 ^ j)"
    by simp
  then show ?thesis ..
qed

lemma round_double_ge_int:
  assumes "real_of_int k \<le> x" "\<bar>x\<bar> < 2 ^ 53"
  shows "real_of_int k \<le> round_double x"
proof (cases "x = 0")
  case True
  with assms show ?thesis by simp
next
  case False
  obtain K where K: "real_of_int k / ulp x = real_of_int K" using int_div_ulp [OF assms(2)] ..
  have "real_of_int K \<le> x / ulp x"
    unfolding K [symmetric] using assms(1) ulp_pos [of x] by (simp add: divide_right_mono)
  then have "K \<le> round_half_even (x / ulp x)" by (rule round_half_even_mono_int(1))
  then have "real_of_int K * ulp x \<le> real_of_int (round_half_even (x / ulp x)) * ulp x"
    using ulp_pos [of x] by (simp add: mult_right_mono)
  moreover have "real_of_int K * ulp x = real_of_int k"
    unfolding K [symmetric] using ulp_pos [of x] by simp
  ultimately show ?thesis using False by (simp add: round_double_def)
qed

lemma round_double_le_int:
  assumes "x \<le> real_of_int k" "\<bar>x\<bar> < 2 ^ 53"
  shows "round_double x \<le> real_of_int k"
proof (cases "x = 0")
  case True
  with assms show ?thesis by simp
next
  case False
  obtain K where K: "real_of_int k / ulp x = real_of_int K" using int_div_ulp [OF assms(2)] ..
  have "x / ulp x \<le> real_of_int K"
    unfolding K [symmetric] using assms(1) ulp_pos [of x] by (simp add: divide_right_mono)
  then have "round_half_even (x / ulp x) \<le> K" by (rule round_half_even_mono_int(2))
  then have "real_of_int (round_half_even (x / ulp x)) * ulp x \<le> real_of_int K * ulp x"
    using ulp_pos [of x] by (simp add: mult_right_mono)
  moreover have "real_of_int K * ulp x = real_of_int k"
    unfolding K [symmetric] using ulp_pos [of x] by simp
  ultimately show ?thesis using False by (simp add: round_double_def)
qed

text \<open>relative error of a normal number\<close>
lemma round_double_upper:
  assumes "2 powi (- 1022) \<le> x"
  shows "round_double x \<le> x + x / 2 ^ 53"
proof -
  have x: "0 < x" using assms by (smt (verit) zero_less_power_int)
  define e where "e = \<lfloor>log 2 x\<rfloor>"
  have e: "2 powi e \<le> x" using floor_log2_bounds [OF x] by (simp add: e_def)
  have "- 1022 \<le> e"
  proof (rule ccontr)
    assume "\<not> - 1022 \<le> e"
    then have "e + 1 \<le> - 1022" by simp
    then have "(2::real) powi (e + 1) \<le> 2 powi (- 1022)" by (intro power_int_increasing) simp_all
    moreover have "x < 2 powi (e + 1)" using floor_log2_bounds [OF x] by (simp add: e_def)
    ultimately show False using assms by linarith
  qed
  then have b: "binade x = e" using x by (simp add: binade_def e_def)
  have u: "ulp x = 2 powi e / 2 ^ 52"
    by (simp add: ulp_def b power_int_diff)
  then have ux: "ulp x \<le> x / 2 ^ 52" using e by (simp add: divide_right_mono)
  have "round_double x = real_of_int (round_half_even (x / ulp x)) * ulp x"
    using x by (simp add: round_double_def)
  also have "\<dots> \<le> (x / ulp x + 1 / 2) * ulp x"
    using round_half_even_bounds(1) [of "x / ulp x"] ulp_pos [of x] by (simp add: mult_right_mono)
  also have "\<dots> = x + ulp x / 2" using ulp_pos [of x] by (simp add: field_simps)
  also have "\<dots> \<le> x + x / 2 ^ 53" using ux by simp
  finally show ?thesis .
qed


lemma average_less_exact:
  fixes n p k :: nat
  assumes n: "n < 2 ^ 53" and p0: "0 < p" and p: "p \<le> 2 ^ 53" and k: "k \<le> 2 ^ 53"
  shows "(d_div (nat_to_double n) (nat_to_double p) < nat_to_double k) = (n < k * p)"
proof -
  define x where "x = real n / real p"
  have conv: "nat_to_double n = real n" "nat_to_double p = real p" "nat_to_double k = real k"
    using n p k by (simp_all add: nat_to_double_exact)
  have x0: "0 \<le> x" by (simp add: x_def)
  have "real n < real (2 ^ 53)" using n by (simp only: of_nat_less_iff)
  then have n53: "real n < 2 ^ 53" by simp
  have "real p \<le> real (2 ^ 53)" using p by (simp only: of_nat_le_iff)
  then have p53: "real p \<le> 2 ^ 53" by simp
  have p1: "1 \<le> real p" using p0 by simp
  have "x \<le> real n" unfolding x_def using p1 by (simp add: divide_le_eq mult_le_cancel_left1)
  also note n53
  finally have x53: "\<bar>x\<bar> < 2 ^ 53" using x0 by simp
  have "(round_double x < real k) = (n < k * p)"
  proof
    assume lt: "round_double x < real k"
    show "n < k * p"
    proof (rule ccontr)
      assume "\<not> n < k * p"
      then have "real (k * p) \<le> real n" by (simp only: of_nat_le_iff)
      then have "real_of_int (int k) \<le> x" using p0 by (simp add: x_def field_simps)
      from round_double_ge_int [OF this x53] lt show False by simp
    qed
  next
    assume lt: "n < k * p"
    show "round_double x < real k"
    proof (cases "n = 0")
      case True
      with lt show ?thesis by (simp add: x_def)
    next
      case False
      have n1: "1 \<le> real n" using False by simp
      have "1 / 2 ^ 53 \<le> 1 / real p" using p53 p1 by (intro divide_left_mono) simp_all
      also have "\<dots> \<le> real n / real p" using n1 p1 by (intro divide_right_mono) simp_all
      finally have "1 / 2 ^ 53 \<le> x" by (simp add: x_def)
      moreover have "(2::real) powi (- 1022) \<le> 1 / 2 ^ 53"
        by (simp add: power_int_minus inverse_eq_divide field_simps)
      ultimately have "2 powi (- 1022) \<le> x" by linarith
      then have "round_double x \<le> x + x / 2 ^ 53" by (rule round_double_upper)
      also have "x + x / 2 ^ 53 = (real n + real n / 2 ^ 53) / real p"
        by (simp add: x_def field_simps)
      also have "\<dots> < real (k * p) / real p"
      proof (rule divide_strict_right_mono)
        have "real n / 2 ^ 53 < 1" using n53 by simp
        moreover have "real n + 1 \<le> real (k * p)"
        proof -
          have "Suc n \<le> k * p" using lt by simp
          then have "real (Suc n) \<le> real (k * p)" by (simp only: of_nat_le_iff)
          then show ?thesis by simp
        qed
        ultimately show "real n + real n / 2 ^ 53 < real (k * p)" by linarith
        show "0 < real p" using p0 by simp
      qed
      also have "\<dots> = real k" using p0 by simp
      finally show ?thesis .
    qed
  qed
  then show ?thesis by (simp add: d_div_def conv x_def)
qed


lemma build_from_hashes_fields:
  fixes hashes :: "nat \<Rightarrow> 'h" and el :: real and b :: "'sk partitioned_builder"
    and L :: "('k, 'h, 'sk, 'e) library"
  assumes "n \<noteq> 0" "check_hash_collision_probability L n = None" "num_partitions config \<noteq> 0"
  defines "np \<equiv> actual_num_partitions (min_partition_size L) n (num_partitions config)"
  defines "b' \<equiv> fst (build_from_hashes L hashes n config el b)"
  shows "m_num_partitions b' = np \<and> m_bucketer b' = uniform_bucketer_init np \<and>
         m_seed b' = seed config \<and> m_num_keys b' = n \<and> length (m_offsets b') = unat np"
proof -
  have np: "np \<noteq> 0" unfolding np_def using assms(3) by (rule actual_num_partitions_nonzero)
  define ps where "ps = map (partition_keys L np (map hashes [0..<unat n])) [0..<unat np]"
  have ph: "partition_hashes (mix L) (uniform_bucketer_init np) (map hashes [0..<unat n])
              (replicate (unat np) []) = Inr ps"
    unfolding ps_def by (rule partition_hashes_build [OF np])
  obtain b2 r where sz: "size_partitions config ps [0..<unat np] 0 (sized_builder L n config np b) = (b2, r)"
    by (cases "size_partitions config ps [0..<unat np] 0 (sized_builder L n config np b)")
  note fl = size_partitions_fields [OF sz]
  have "b' = b2 \<or> (\<exists>bs. b' = b2\<lparr>m_builders := bs\<rparr>)"
    unfolding b'_def using assms(1-3) ph sz
    by (auto simp add: build_from_hashes_def Let_def np_def [symmetric] sized_builder_def [symmetric]
        simp del: partition_hashes.simps size_partitions.simps
        split: sum.splits option.splits prod.splits)
  with fl show ?thesis by auto
qed

text \<open>
  C5. For a non-empty input that passes the collision check and a requested count
  \<open>P > 0\<close>, whatever happens later in the build: \<open>m_num_partitions\<close> (what
  \<^verbatim>\<open>num_partitions()\<close> returns) is 1 when \<open>P > 1\<close> and the average partition size, the
  quotient \<open>n / P\<close> of the doubles, is below \<open>min_partition_size\<close>, and is \<open>P\<close> otherwise;
  the partition bucketer is initialised with this count, and \<open>m_offsets\<close> has this
  length. For \<open>n < 2^53\<close> (and \<open>P\<close> and the constant at most \<open>2^53\<close>) the comparison of the
  doubles is the comparison of the exact quotient with the constant.
\<close>

theorem partition_count_fallback:
  fixes hashes :: "nat \<Rightarrow> 'h" and el :: real and b :: "'sk partitioned_builder"
    and L :: "('k, 'h, 'sk, 'e) library"
  assumes "n \<noteq> 0" "check_hash_collision_probability L n = None" "num_partitions config \<noteq> 0"
  defines "b' \<equiv> fst (build_from_hashes L hashes n config el b)"
  defines "average \<equiv> d_div (u64_to_double n) (u64_to_double (num_partitions config))"
  shows "m_num_partitions b' =
           (if 1 < num_partitions config \<and> average < u64_to_double (min_partition_size L)
            then 1 else num_partitions config) \<and>
         m_bucketer b' = uniform_bucketer_init (m_num_partitions b') \<and>
         length (m_offsets b') = unat (m_num_partitions b') \<and>
         (unat n < 2 ^ 53 \<and> unat (num_partitions config) \<le> 2 ^ 53 \<and>
          unat (min_partition_size L) \<le> 2 ^ 53 \<longrightarrow>
            (average < u64_to_double (min_partition_size L)) =
            (real (unat n) / real (unat (num_partitions config)) < real (unat (min_partition_size L))))"
proof -
  note f = build_from_hashes_fields [OF assms(1-3), of hashes el b, folded b'_def]
  have p0: "0 < unat (num_partitions config)" using assms(3) by (simp add: unat_gt_0)
  have exact: "(average < u64_to_double (min_partition_size L)) =
        (real (unat n) / real (unat (num_partitions config)) < real (unat (min_partition_size L)))"
    if "unat n < 2 ^ 53" "unat (num_partitions config) \<le> 2 ^ 53"
       "unat (min_partition_size L) \<le> 2 ^ 53"
  proof -
    have "(average < u64_to_double (min_partition_size L)) =
          (unat n < unat (min_partition_size L) * unat (num_partitions config))"
      unfolding average_def u64_to_double_def by (rule average_less_exact [OF that(1) p0 that(2,3)])
    also have "\<dots> = (real (unat n) <
                 real (unat (min_partition_size L)) * real (unat (num_partitions config)))"
      by (simp only: of_nat_less_iff flip: of_nat_mult)
    also have "\<dots> = (real (unat n) / real (unat (num_partitions config))
                  < real (unat (min_partition_size L)))"
    proof -
      have rp: "0 < real (unat (num_partitions config))" using p0 by (simp only: of_nat_0_less_iff)
      show ?thesis by (rule pos_divide_less_eq [OF rp, symmetric])
    qed
    finally show ?thesis .
  qed
  have "m_num_partitions b' =
           (if 1 < num_partitions config \<and> average < u64_to_double (min_partition_size L)
            then 1 else num_partitions config)"
    using f by (simp add: actual_num_partitions_def Let_def average_def conj_commute)
  moreover have "m_bucketer b' = uniform_bucketer_init (m_num_partitions b')"
    "length (m_offsets b') = unat (m_num_partitions b')"
    using f by simp_all
  ultimately show ?thesis using exact by blast
qed

theorem partition_count_fallback_witness:
  "m_num_partitions (fst (build_from_hashes example_library example_hashes 2
      (example_config\<lparr>num_partitions := 3\<rparr>) 0 example_builder)) = 1 \<and>
   m_num_partitions (fst (build_from_hashes example_library example_hashes 2
      example_config 0 example_builder)) = 2"
  using partition_count_fallback [where L = example_library and n = 2 and hashes = example_hashes
      and config = "example_config\<lparr>num_partitions := 3\<rparr>" and el = 0 and b = example_builder]
    partition_count_fallback [where L = example_library and n = 2 and hashes = example_hashes
      and config = example_config and el = 0 and b = example_builder]
  by (simp add: example_library_def example_config_def u64_to_double_def nat_to_double_exact)


lemma build_range_sub_cong:
  assumes "\<And>hs sb. single_build_from_hashes L' hs config sb = single_build_from_hashes L hs config sb"
  shows "build_range L' config ps is bs t = build_range L config ps is bs t"
proof (induction "is" arbitrary: bs t)
  case Nil
  show ?case by simp
next
  case (Cons i "is")
  show ?case by (simp add: assms Cons.IH split: prod.splits sum.splits)
qed

lemma run_threads_sub_cong:
  assumes "\<And>hs sb. single_build_from_hashes L' hs config sb = single_build_from_hashes L hs config sb"
  shows "run_threads L' config ps rs bs = run_threads L config ps rs bs"
proof (induction rs arbitrary: bs)
  case Nil
  show ?case by simp
next
  case (Cons r rs)
  obtain b e where r: "r = (b, e)" by (cases r)
  show ?case unfolding r
    by (simp add: build_range_sub_cong [of L' config L, OF assms] Cons.IH
        split: prod.splits sum.splits)
qed

lemma build_partitions_sub_cong:
  assumes "\<And>hs sb. single_build_from_hashes L' hs config sb = single_build_from_hashes L hs config sb"
  shows "build_partitions L' ps bs config nt = build_partitions L ps bs config nt"
  by (simp add: build_partitions_def build_range_sub_cong [of L' config L, OF assms]
      run_threads_sub_cong [of L' config L, OF assms])

lemma floor_d_div_exact:
  fixes a p :: nat
  assumes a: "a < 2 ^ 53" and p0: "0 < p" and p: "p \<le> 2 ^ 53"
  shows "\<lfloor>d_div (nat_to_double a) (nat_to_double p)\<rfloor> = int (a div p)"
proof -
  have conv: "nat_to_double a = real a" "nat_to_double p = real p"
    using a p by (simp_all add: nat_to_double_exact)
  have "real a < real (2 ^ 53)" using a by (simp only: of_nat_less_iff)
  then have a53: "real a < 2 ^ 53" by simp
  have p1: "1 \<le> real p" using p0 by simp
  have "real a / real p \<le> real a" using p1 by (simp add: divide_le_eq mult_le_cancel_left1)
  then have x53: "\<bar>real a / real p\<bar> < 2 ^ 53" using a53 by simp
  have "real (a div p * p) \<le> real a" by (simp only: of_nat_le_iff) simp
  then have "real_of_int (int (a div p)) \<le> real a / real p"
    using p0 by (simp add: le_divide_eq)
  from round_double_ge_int [OF this x53]
  have lower: "real_of_int (int (a div p)) \<le> d_div (nat_to_double a) (nat_to_double p)"
    by (simp add: d_div_def conv)
  have k: "Suc (a div p) \<le> 2 ^ 53"
  proof -
    have "a div p \<le> a" by simp
    then have "a div p < 2 ^ 53" using a by (rule le_less_trans)
    then show ?thesis by (simp only: Suc_le_eq)
  qed
  have "a < Suc (a div p) * p" using p0 by (simp add: dividend_less_div_times)
  then have "d_div (nat_to_double a) (nat_to_double p) < nat_to_double (Suc (a div p))"
    using average_less_exact [OF a p0 p k] by simp
  then have upper: "d_div (nat_to_double a) (nat_to_double p) < real_of_int (int (a div p)) + 1"
    using k by (simp add: nat_to_double_exact)
  from lower upper show ?thesis by (simp add: floor_eq_iff)
qed


lemma build_from_hashes_unfold:
  fixes L :: "('k, 'h, 'sk, 'e) library" and hashes :: "nat \<Rightarrow> 'h"
  assumes "n \<noteq> 0" "check_hash_collision_probability L n = None" "num_partitions config \<noteq> 0"
  defines "np \<equiv> actual_num_partitions (min_partition_size L) n (num_partitions config)"
  defines "ps \<equiv> map (partition_keys L np (map hashes [0..<unat n])) [0..<unat np]"
  assumes sz: "size_partitions config ps [0..<unat np] 0 (sized_builder L n config np b) = (b2, r)"
  shows "build_from_hashes L hashes n config el b =
      (case r of Inl e \<Rightarrow> (b2, Inl e)
       | Inr u \<Rightarrow>
        (case partition_config L config (seed config) n np of
           None \<Rightarrow> (b2, Inl undefined_behaviour)
         | Some pc \<Rightarrow>
        (case build_partitions L ps (m_builders b2) pc (num_threads config) of
           (builders, Inl e) \<Rightarrow> (b2\<lparr>m_builders := builders\<rparr>, Inl e)
         | (builders, Inr t) \<Rightarrow>
             (b2\<lparr>m_builders := builders\<rparr>,
              Inr (fresh_timings\<lparr>partitioning_seconds := el,
                     mapping_ordering_seconds := mapping_ordering_seconds t,
                     searching_seconds := searching_seconds t\<rparr>)))))"
proof -
  have np: "np \<noteq> 0" unfolding np_def using assms(3) by (rule actual_num_partitions_nonzero)
  have ph: "partition_hashes (mix L) (uniform_bucketer_init np) (map hashes [0..<unat n])
              (replicate (unat np) []) = Inr ps"
    unfolding ps_def by (rule partition_hashes_build [OF np])
  have seed2: "m_seed b2 = seed config"
    using size_partitions_fields [OF sz] by simp
  show ?thesis
    using assms(1-3) ph sz seed2
    by (simp add: build_from_hashes_def Let_def np_def [symmetric] sized_builder_def [symmetric]
        del: partition_hashes.simps size_partitions.simps split: sum.splits)
qed

lemma d_div_nonneg2: "0 \<le> x \<Longrightarrow> 0 \<le> y \<Longrightarrow> 0 \<le> d_div x y"
  by (simp add: d_div_def round_double_nonneg)

lemma u64_to_double_nonneg: "0 \<le> u64_to_double w"
  by (simp add: u64_to_double_def nat_to_double_nonneg)

lemma double_to_u64_nonneg:
  assumes "double_to_u64 x = Some w" "0 \<le> x"
  shows "unat w = nat \<lfloor>x\<rfloor>" "x < 2 ^ 64"
proof -
  from assms show x64: "x < 2 ^ 64" by (auto simp: double_to_u64_def split: if_splits)
  have w: "w = word_of_int \<lfloor>x\<rfloor>"
    using assms by (auto simp: double_to_u64_def split: if_splits)
  have "real_of_int \<lfloor>x\<rfloor> \<le> x" by simp
  then have "real_of_int \<lfloor>x\<rfloor> < real_of_int (2 ^ 64)" using x64 by simp
  then have "\<lfloor>x\<rfloor> < 2 ^ 64" by (simp only: of_int_less_iff)
  moreover have "0 \<le> \<lfloor>x\<rfloor>" using assms(2) by simp
  ultimately show "unat w = nat \<lfloor>x\<rfloor>"
    by (simp add: w unat_eq_nat_uint uint_word_of_int take_bit_int_eq_self)
qed

lemma double_to_u64_ceil:
  assumes "double_to_u64 (d_ceil x) = Some w"
  shows "0 \<le> \<lceil>x\<rceil> \<and> \<lceil>x\<rceil> < 2 ^ 64 \<and> unat w = nat \<lceil>x\<rceil>"
proof -
  from assms have "- 1 < real_of_int \<lceil>x\<rceil>"
    by (auto simp: double_to_u64_def d_ceil_def split: if_splits)
  then have "real_of_int (- 1) < real_of_int \<lceil>x\<rceil>" by simp
  then have "- 1 < \<lceil>x\<rceil>" by (simp only: of_int_less_iff)
  then have c0: "0 \<le> \<lceil>x\<rceil>" by linarith
  then have "0 \<le> d_ceil x" by (simp add: d_ceil_def)
  from double_to_u64_nonneg [OF assms this] c0 show ?thesis
    by (simp add: d_ceil_def)
qed


lemma partition_config_sub [simp]:
  "partition_config (L\<lparr>single_build_from_hashes := sub'\<rparr>) config sd n p =
   partition_config L config sd n p"
  by (simp add: partition_config_def)

lemma partition_config_Some:
  assumes "partition_config L config sd n p = Some pc"
  defines "q \<equiv> d_div (d_mul (c config) (u64_to_double n))
                    (if 1 < n then log2 L (u64_to_double n) else 1)"
  shows "\<exists>nb1. pc = config\<lparr>num_partitions := p, seed := sd, num_buckets := num_buckets pc,
                          verbose_output := False, num_threads := 1\<rparr> \<and>
           (if 1 < n then log2 L (u64_to_double n) else 1) \<noteq> 0 \<and>
           0 \<le> \<lceil>q\<rceil> \<and> \<lceil>q\<rceil> < 2 ^ 64 \<and> unat nb1 = nat \<lceil>q\<rceil> \<and>
           unat (num_buckets pc) = nat \<lfloor>d_div (u64_to_double nb1) (u64_to_double p)\<rfloor> \<and>
           (unat nb1 < 2 ^ 53 \<and> p \<noteq> 0 \<and> unat p \<le> 2 ^ 53 \<longrightarrow>
              unat (num_buckets pc) = unat nb1 div unat p)"
proof -
  from assms(1) have d0: "(if 1 < n then log2 L (u64_to_double n) else 1) \<noteq> 0"
    by (auto simp: partition_config_def Let_def split: if_splits)
  from assms(1) obtain nb1 nb where
    c1: "double_to_u64 (d_ceil q) = Some nb1" and
    c2: "double_to_u64 (d_div (u64_to_double nb1) (u64_to_double p)) = Some nb" and
    pc: "pc = config\<lparr>num_partitions := p, seed := sd, num_buckets := nb,
                          verbose_output := False, num_threads := 1\<rparr>"
    by (auto simp: partition_config_def q_def Let_def split: option.splits if_splits)
  have nb: "num_buckets pc = nb" by (simp add: pc)
  note k1 = double_to_u64_ceil [OF c1]
  have "0 \<le> d_div (u64_to_double nb1) (u64_to_double p)"
    by (intro d_div_nonneg2 u64_to_double_nonneg)
  note k2 = double_to_u64_nonneg(1) [OF c2 this]
  have "unat nb = unat nb1 div unat p" if "unat nb1 < 2 ^ 53" "p \<noteq> 0" "unat p \<le> 2 ^ 53"
  proof -
    have p0: "0 < unat p" using that(2) by (simp add: unat_gt_0)
    show ?thesis
      unfolding k2 u64_to_double_def floor_d_div_exact [OF that(1) p0 that(3)] by simp
  qed
  with k1 k2 pc nb d0 show ?thesis by (intro exI [of _ nb1]) simp
qed

text \<open>
  C8, as amended. After a successful \<^verbatim>\<open>build_from_hashes\<close> with final partition count
  \<open>np\<close>, there is one configuration \<open>pc\<close> that is passed to every single builder (the
  build does not depend on what the single builder does on any other configuration):
  the given configuration with \<open>num_partitions = np\<close>, the seed of the builder (the given
  seed), \<open>verbose_output = false\<close>, \<open>num_threads = 1\<close> and
  \<open>num_buckets = floor (nb1 / np)\<close>, where \<open>nb1\<close> is the ceiling of \<open>c * n / log2 n\<close> (with
  divisor 1 for \<open>n = 1\<close>), all in doubles and with the value that the library's
  \<^verbatim>\<open>std::log2\<close> returns on the double of \<open>n\<close>, whatever its rounding; that value is not
  zero. For \<open>nb1 < 2^53\<close> this is the integer quotient \<open>nb1 div np\<close>. There is no lower
  bound 1.
\<close>

theorem sub_builder_configuration:
  fixes L :: "('k, 'h, 'sk, 'e) library" and hashes :: "nat \<Rightarrow> 'h"
  assumes "build_from_hashes L hashes n config el b = (b', Inr t)"
  defines "np \<equiv> m_num_partitions b'"
  defines "q \<equiv> d_div (d_mul (c config) (u64_to_double n))
                    (if 1 < n then log2 L (u64_to_double n) else 1)"
  shows "\<exists>pc nb1.
           pc = config\<lparr>num_partitions := np, seed := m_seed b', num_buckets := num_buckets pc,
                         verbose_output := False, num_threads := 1\<rparr> \<and>
           m_seed b' = seed config \<and>
           (if 1 < n then log2 L (u64_to_double n) else 1) \<noteq> 0 \<and>
           0 \<le> \<lceil>q\<rceil> \<and> \<lceil>q\<rceil> < 2 ^ 64 \<and> unat nb1 = nat \<lceil>q\<rceil> \<and>
           unat (num_buckets pc) = nat \<lfloor>d_div (u64_to_double nb1) (u64_to_double np)\<rfloor> \<and>
           (unat nb1 < 2 ^ 53 \<and> unat np \<le> 2 ^ 53 \<longrightarrow>
              unat (num_buckets pc) = unat nb1 div unat np) \<and>
           (\<forall>sub'. (\<forall>hs sb. sub' hs pc sb = single_build_from_hashes L hs pc sb) \<longrightarrow>
                build_from_hashes (L\<lparr>single_build_from_hashes := sub'\<rparr>) hashes n config el b =
                build_from_hashes L hashes n config el b)"
proof -
  define np0 where "np0 = actual_num_partitions (min_partition_size L) n (num_partitions config)"
  define ps where "ps = map (partition_keys L np0 (map hashes [0..<unat n])) [0..<unat np0]"
  from build_from_hashes_Inr [OF assms(1)] obtain b2 pc builders t' where
    n: "n \<noteq> 0" and chk: "check_hash_collision_probability L n = None"
    and p: "num_partitions config \<noteq> 0" and np0: "np0 \<noteq> 0"
    and sz: "size_partitions config ps [0..<unat np0] 0 (sized_builder L n config np0 b) = (b2, Inr ())"
    and pc: "partition_config L config (seed config) n np0 = Some pc"
    and b': "b' = b2\<lparr>m_builders := builders\<rparr>"
    unfolding np0_def ps_def by blast
  note fl = size_partitions_fields [OF sz]
  have np: "np = np0" and sd: "m_seed b' = seed config" using fl by (simp_all add: np_def b')
  from partition_config_Some [OF pc, folded q_def] obtain nb1 where
    k: "pc = config\<lparr>num_partitions := np0, seed := seed config, num_buckets := num_buckets pc,
                          verbose_output := False, num_threads := 1\<rparr>"
       "(if 1 < n then log2 L (u64_to_double n) else 1) \<noteq> 0"
       "0 \<le> \<lceil>q\<rceil>" "\<lceil>q\<rceil> < 2 ^ 64" "unat nb1 = nat \<lceil>q\<rceil>"
       "unat (num_buckets pc) = nat \<lfloor>d_div (u64_to_double nb1) (u64_to_double np0)\<rfloor>"
       "unat nb1 < 2 ^ 53 \<and> np0 \<noteq> 0 \<and> unat np0 \<le> 2 ^ 53 \<longrightarrow>
              unat (num_buckets pc) = unat nb1 div unat np0"
    by blast
  have ext: "build_from_hashes (L\<lparr>single_build_from_hashes := sub'\<rparr>) hashes n config el b =
                build_from_hashes L hashes n config el b"
    if sub: "\<forall>hs sb. sub' hs pc sb = single_build_from_hashes L hs pc sb" for sub'
  proof -
    let ?L' = "L\<lparr>single_build_from_hashes := sub'\<rparr>"
    have same: "actual_num_partitions (min_partition_size ?L') n (num_partitions config) = np0"
      "sized_builder ?L' n config np0 b = sized_builder L n config np0 b"
      "map (partition_keys ?L' np0 (map hashes [0..<unat n])) [0..<unat np0] = ps"
      by (simp_all add: np0_def sized_builder_def ps_def partition_keys_def)
    have chk': "check_hash_collision_probability ?L' n = None" using chk by simp
    have sz': "size_partitions config
        (map (partition_keys ?L' (actual_num_partitions (min_partition_size ?L') n (num_partitions config))
           (map hashes [0..<unat n]))
           [0..<unat (actual_num_partitions (min_partition_size ?L') n (num_partitions config))])
        [0..<unat (actual_num_partitions (min_partition_size ?L') n (num_partitions config))] 0
        (sized_builder ?L' n config
           (actual_num_partitions (min_partition_size ?L') n (num_partitions config)) b) = (b2, Inr ())"
      unfolding same using sz .
    have cong: "build_partitions ?L' ps (m_builders b2) pc (num_threads config) =
        build_partitions L ps (m_builders b2) pc (num_threads config)"
      by (rule build_partitions_sub_cong) (simp add: sub)
    show ?thesis
      unfolding build_from_hashes_unfold [OF n chk' p sz']
        build_from_hashes_unfold [OF n chk p sz [unfolded ps_def np0_def]]
      unfolding same np0_def [symmetric] ps_def [symmetric]
      by (simp add: pc cong)
  qed
  from k np0 ext show ?thesis
    unfolding np sd by (intro exI [of _ pc] exI [of _ nb1]) simp
qed


lemma round_double_half: "round_double (1 / 2) = 1 / 2"
  using round_double_dyadic [of 1 "- 1"] by (simp add: power_int_minus)

lemma round_double_eighth: "round_double (1 / 8) = 1 / 8"
  using round_double_dyadic [of 1 "- 3"] by (simp add: power_int_minus)

lemma binade_1_136: "binade (1 / 136) = - 8"
  by (rule binade_eqI) (simp_all add: power_int_minus)

lemma round_double_1_136: "round_double (1 / 136) = 8477364004462110 / 1152921504606846976"
  by (simp add: round_double_def ulp_def binade_1_136 round_half_even_def Let_def power_int_minus)

lemma log2_example_library: "log2 example_library x = example_log2 x"
  by (simp add: example_library_def)

lemma log_2_131072: "log 2 131072 = 17"
  using log_pow_cancel [of 2 17] by simp

text \<open>
  C8 as stated fails. With \<open>c = 2^-20\<close>, \<open>131072\<close> keys and two partitions (the average
  size, 65536, is not below a \<open>min_partition_size\<close> of 50000), and a library whose
  \<^verbatim>\<open>std::log2\<close> returns 17 on \<open>131072 = 2^17\<close>, the ceiling of \<open>c * n / log2 n\<close> is 1, and
  \<open>num_buckets\<close> is \<open>floor (1 / 2) = 0\<close>.
\<close>

theorem num_buckets_zero_counterexample:
  "actual_num_partitions 50000 131072 2 = 2 \<and>
   map_option num_buckets (partition_config example_library (example_config\<lparr>c := 1 / 1048576\<rparr>) 0 131072 2) = Some 0"
  by (simp add: actual_num_partitions_def partition_config_def u64_to_double_def nat_to_double_exact
      d_div_def d_mul_def log2_example_library example_log2_def d_ceil_def double_to_u64_def Let_def
      example_config_def
      round_double_half round_double_eighth round_double_1_136 log_2_131072)


theorem sub_builder_configuration_witness:
  "build_from_hashes example_library example_hashes 2 example_config 0 example_builder =
     (example_built,
      Inr \<lparr>partitioning_seconds = 0, mapping_ordering_seconds = 2, searching_seconds = 4,
           encoding_seconds = 0\<rparr>) \<and>
   (\<exists>pc. num_threads pc = 1 \<and> \<not> verbose_output pc \<and> seed pc = seed example_config \<and>
         num_partitions pc = 2 \<and> unat (num_buckets pc) = 2 \<and>
         (\<forall>sub'. (\<forall>hs sb. sub' hs pc sb = single_build_from_hashes example_library hs pc sb) \<longrightarrow>
            build_from_hashes (example_library\<lparr>single_build_from_hashes := sub'\<rparr>)
              example_hashes 2 example_config 0 example_builder =
            build_from_hashes example_library example_hashes 2 example_config 0 example_builder))"
proof -
  from sub_builder_configuration [OF example_run] obtain pc nb1 where
    pc: "pc = example_config\<lparr>num_partitions := m_num_partitions example_built,
             seed := m_seed example_built, num_buckets := num_buckets pc,
             verbose_output := False, num_threads := 1\<rparr>"
    and sd: "m_seed example_built = seed example_config"
    and nb1: "unat nb1 = nat \<lceil>d_div (d_mul (c example_config) (u64_to_double 2))
                    (if 1 < (2 :: u64) then log2 example_library (u64_to_double 2) else 1)\<rceil>"
    and nb: "unat (num_buckets pc) =
               nat \<lfloor>d_div (u64_to_double nb1) (u64_to_double (m_num_partitions example_built))\<rfloor>"
    and ext: "\<forall>sub'. (\<forall>hs sb. sub' hs pc sb = single_build_from_hashes example_library hs pc sb) \<longrightarrow>
            build_from_hashes (example_library\<lparr>single_build_from_hashes := sub'\<rparr>)
              example_hashes 2 example_config 0 example_builder =
            build_from_hashes example_library example_hashes 2 example_config 0 example_builder"
    by blast
  have "unat nb1 = 4"
    using nb1 by (simp add: example_config_def d_div_def d_mul_def log2_example_library
        example_log2_def u64_to_double_def
        nat_to_double_exact)
  then have "unat (num_buckets pc) = 2"
    using nb by (simp add: example_built_def d_div_def u64_to_double_def nat_to_double_exact)
  moreover have "num_threads pc = 1" "\<not> verbose_output pc" "seed pc = seed example_config"
    "num_partitions pc = 2"
    by (subst pc, simp add: sd example_built_def example_config_def)+
  ultimately show ?thesis using example_run ext by blast
qed

section \<open>The threads of \<^verbatim>\<open>build_partitions\<close>\<close>

lemma build_range_timings:
  assumes "build_range L config ps is bs t0 = (bs', Inr t)" "distinct is"
  shows "mapping_ordering_seconds t =
           foldl d_add (mapping_ordering_seconds t0)
             (map (\<lambda>i. mapping_ordering_seconds (partition_timings L config ps bs i)) is) \<and>
         searching_seconds t =
           foldl d_add (searching_seconds t0)
             (map (\<lambda>i. searching_seconds (partition_timings L config ps bs i)) is)"
  using assms
proof (induction "is" arbitrary: bs t0)
  case Nil
  then show ?case by simp
next
  case (Cons i "is")
  obtain sb r where sub: "single_build_from_hashes L (ps ! i) config (bs ! i) = (sb, r)"
    by (cases "single_build_from_hashes L (ps ! i) config (bs ! i)")
  with Cons.prems(1) obtain ti where r: "r = Inr ti" by (cases r) auto
  let ?t1 = "t0\<lparr>mapping_ordering_seconds :=
                  d_add (mapping_ordering_seconds t0) (mapping_ordering_seconds ti),
               searching_seconds := d_add (searching_seconds t0) (searching_seconds ti)\<rparr>"
  have run: "build_range L config ps is (bs[i := sb]) ?t1 = (bs', Inr t)"
    using Cons.prems(1) sub r by simp
  have d: "distinct is" and ni: "i \<notin> set is" using Cons.prems(2) by simp_all
  have same: "partition_timings L config ps (bs[i := sb]) j = partition_timings L config ps bs j"
    if "j \<in> set is" for j
  proof -
    have "i \<noteq> j" using that ni by auto
    then have "bs[i := sb] ! j = bs ! j" by (rule nth_list_update_neq)
    then show ?thesis by (simp add: partition_timings_def)
  qed
  have pi: "partition_timings L config ps bs i = ti"
    by (simp add: partition_timings_def sub r)
  from Cons.IH [OF run d] show ?case
    by (simp add: same pi cong: map_cong)
qed

lemma build_range_builders:
  "build_range L config ps is bs t0 = (bs', r) \<Longrightarrow> length bs' = length bs \<and>
     (\<forall>j. j \<notin> set is \<longrightarrow> bs' ! j = bs ! j)"
proof (induction "is" arbitrary: bs t0)
  case Nil
  then show ?case by auto
next
  case (Cons i "is")
  obtain sb r1 where sub: "single_build_from_hashes L (ps ! i) config (bs ! i) = (sb, r1)"
    by (cases "single_build_from_hashes L (ps ! i) config (bs ! i)")
  show ?case
  proof (cases r1)
    case (Inl e)
    with Cons.prems sub show ?thesis by auto
  next
    case (Inr ti)
    with Cons.prems sub Cons.IH [of "bs[i := sb]"] show ?thesis by auto
  qed
qed


lemma build_range_other_fields:
  "build_range L config ps is bs t0 = (bs', Inr t) \<Longrightarrow>
     partitioning_seconds t = partitioning_seconds t0 \<and> encoding_seconds t = encoding_seconds t0"
proof (induction "is" arbitrary: bs t0)
  case Nil
  then show ?case by simp
next
  case (Cons i "is")
  obtain sb r1 where sub: "single_build_from_hashes L (ps ! i) config (bs ! i) = (sb, r1)"
    by (cases "single_build_from_hashes L (ps ! i) config (bs ! i)")
  show ?case
  proof (cases r1)
    case (Inl e)
    with Cons.prems sub show ?thesis by simp
  next
    case (Inr ti)
    with Cons.prems sub Cons.IH [of "bs[i := sb]"] show ?thesis by auto
  qed
qed

lemma build_range_thread_timings:
  assumes "build_range L config ps [unat b..<unat e] bs fresh_timings = (bs', Inr t)"
  shows "t = thread_timings L config ps bs (b, e)"
proof -
  from build_range_timings [OF assms] build_range_other_fields [OF assms]
  have "mapping_ordering_seconds t = mapping_ordering_seconds (thread_timings L config ps bs (b, e))"
    "searching_seconds t = searching_seconds (thread_timings L config ps bs (b, e))"
    "partitioning_seconds t = partitioning_seconds (thread_timings L config ps bs (b, e))"
    "encoding_seconds t = encoding_seconds (thread_timings L config ps bs (b, e))"
    by (simp_all add: thread_timings_def double_sum_def range_indices_def fresh_timings_def)
  then show ?thesis by simp
qed

lemma thread_timings_cong:
  assumes "\<forall>j\<in>set (range_indices r). bs1 ! j = bs ! j"
  shows "thread_timings L config ps bs1 r = thread_timings L config ps bs r"
proof -
  have "partition_timings L config ps bs1 j = partition_timings L config ps bs j"
    if "j \<in> set (range_indices r)" for j
    using assms that by (simp add: partition_timings_def)
  then show ?thesis by (simp add: thread_timings_def cong: map_cong)
qed

lemma run_threads_indices:
  "run_threads L config ps (thread_ranges P per k start) bs = (bs', Inr ts) \<Longrightarrow>
     r \<in> set (thread_ranges P per k start) \<Longrightarrow> j \<in> set (range_indices r) \<Longrightarrow>
     unat start \<le> j \<and> j < unat P"
proof (induction k arbitrary: start bs ts)
  case 0
  then show ?case by simp
next
  case (Suc k)
  define end1 where "end1 = (if P < start + per then P else start + per)"
  have tr: "thread_ranges P per (Suc k) start = (start, end1) # thread_ranges P per k end1"
    by (simp add: end1_def Let_def)
  have e1P: "end1 \<le> P" by (simp add: end1_def not_less)
  from Suc.prems(1) have le: "start \<le> end1"
    unfolding tr by (auto split: if_splits)
  from Suc.prems(1) le obtain bs1 ts1 where
    rest: "run_threads L config ps (thread_ranges P per k end1) bs1 = (bs', Inr ts1)"
    unfolding tr by (auto split: prod.splits sum.splits if_splits)
  show ?case
  proof (cases "r = (start, end1)")
    case True
    with Suc.prems(3) e1P show ?thesis
      by (auto simp: range_indices_def word_le_nat_alt)
  next
    case False
    with Suc.prems(2) have "r \<in> set (thread_ranges P per k end1)" unfolding tr by simp
    from Suc.IH [OF rest this Suc.prems(3)] le show ?thesis
      by (auto simp: word_le_nat_alt)
  qed
qed

lemma run_threads_timings:
  "run_threads L config ps (thread_ranges P per k start) bs = (bs', Inr ts) \<Longrightarrow>
     ts = map (thread_timings L config ps bs) (thread_ranges P per k start)"
proof (induction k arbitrary: start bs ts)
  case 0
  then show ?case by simp
next
  case (Suc k)
  define end1 where "end1 = (if P < start + per then P else start + per)"
  have tr: "thread_ranges P per (Suc k) start = (start, end1) # thread_ranges P per k end1"
    by (simp add: end1_def Let_def)
  from Suc.prems(1) have le: "start \<le> end1"
    unfolding tr by (auto split: if_splits)
  from Suc.prems(1) le obtain bs1 t1 ts1 where
    first: "build_range L config ps [unat start..<unat end1] bs fresh_timings = (bs1, Inr t1)"
    and rest: "run_threads L config ps (thread_ranges P per k end1) bs1 = (bs', Inr ts1)"
    and ts: "ts = t1 # ts1"
    unfolding tr by (auto split: prod.splits sum.splits if_splits)
  have t1: "t1 = thread_timings L config ps bs (start, end1)"
    using first by (rule build_range_thread_timings)
  have "thread_timings L config ps bs1 r = thread_timings L config ps bs r"
    if r: "r \<in> set (thread_ranges P per k end1)" for r
  proof (rule thread_timings_cong, rule ballI)
    fix j assume "j \<in> set (range_indices r)"
    from run_threads_indices [OF rest r this] have "j \<notin> set [unat start..<unat end1]" by simp
    with build_range_builders [OF first] show "bs1 ! j = bs ! j" by simp
  qed
  with Suc.IH [OF rest] show ?case unfolding tr ts t1 by simp
qed


lemma max_timings_fields:
  "mapping_ordering_seconds (max_timings ts t0) =
     Max (insert (mapping_ordering_seconds t0) (mapping_ordering_seconds ` set ts)) \<and>
   searching_seconds (max_timings ts t0) =
     Max (insert (searching_seconds t0) (searching_seconds ` set ts))"
proof (induction ts arbitrary: t0)
  case Nil
  show ?case by simp
next
  case (Cons t ts)
  have *: "Max (insert (if a < b then b else a) S) = Max (insert a (insert b S))"
    if "finite S" for a b :: real and S
    using that by (cases "S = {}") (auto simp: max_def)
  show ?case by (simp add: Cons.IH * del: Max_insert)
qed

lemma Max_insert_zero:
  fixes S :: "real set"
  assumes "finite S" "S \<noteq> {}" "\<forall>x\<in>S. 0 \<le> x"
  shows "Max (insert 0 S) = Max S"
proof -
  have "0 \<le> Max S" using assms by (meson Max_in)
  then show ?thesis using assms by (simp add: max_def)
qed

lemma double_sum_nonneg: "\<forall>x\<in>set xs. 0 \<le> x \<Longrightarrow> 0 \<le> double_sum xs"
proof -
  have "0 \<le> a \<Longrightarrow> \<forall>x\<in>set xs. 0 \<le> x \<Longrightarrow> 0 \<le> foldl d_add a xs" for a
    by (induction xs arbitrary: a) (simp_all add: d_add_def round_double_nonneg)
  then show "\<forall>x\<in>set xs. 0 \<le> x \<Longrightarrow> 0 \<le> double_sum xs" by (simp add: double_sum_def)
qed

lemma threads_of_nonempty: "threads_of P nt \<noteq> []"
proof (cases "1 < nt")
  case True
  then have "1 < unat nt" by (simp add: word_less_nat_alt)
  then obtain k where "unat nt = Suc k" by (cases "unat nt") auto
  then show ?thesis using True by (simp add: threads_of_def Let_def)
next
  case False
  then show ?thesis by (simp add: threads_of_def)
qed

text \<open>
  C9. When \<^verbatim>\<open>build_partitions\<close> returns, and the durations that the single builders report
  are not negative, each of \<open>mapping_ordering_seconds\<close> and \<open>searching_seconds\<close> is the
  maximum over the threads (the one thread \<open>[0, P)\<close> on the sequential path) of the sum,
  added up in doubles in the order of the loop, of that duration over the partitions of
  the thread's range.
\<close>

theorem build_partitions_timings:
  fixes L :: "('k, 'h, 'sk, 'e) library"
  assumes run: "build_partitions L ps bs config nt = (bs', Inr t)"
    and nonneg: "\<forall>i<unat (num_partitions config).
        0 \<le> mapping_ordering_seconds (partition_timings L config ps bs i) \<and>
        0 \<le> searching_seconds (partition_timings L config ps bs i)"
  shows "mapping_ordering_seconds t =
           Max ((\<lambda>r. double_sum (map (\<lambda>i. mapping_ordering_seconds (partition_timings L config ps bs i))
                                    (range_indices r))) `
                set (threads_of (num_partitions config) nt)) \<and>
         searching_seconds t =
           Max ((\<lambda>r. double_sum (map (\<lambda>i. searching_seconds (partition_timings L config ps bs i))
                                    (range_indices r))) `
                set (threads_of (num_partitions config) nt))"
proof (cases "1 < nt")
  case False
  with run have "build_range L config ps [unat (0 :: u64)..<unat (num_partitions config)] bs fresh_timings
      = (bs', Inr t)"
    by (simp add: build_partitions_def split: if_splits)
  from build_range_thread_timings [OF this] False show ?thesis
    by (simp add: threads_of_def thread_timings_def)
next
  case True
  define P where "P = num_partitions config"
  define rs where "rs = thread_ranges P (num_partitions_per_thread P nt) (unat nt) 0"
  have thr: "threads_of (num_partitions config) nt = rs"
    using True by (simp add: threads_of_def rs_def P_def)
  from run True obtain ts where
    rt: "run_threads L config ps rs bs = (bs', Inr ts)" and t: "t = max_timings ts fresh_timings"
    by (auto simp: build_partitions_def rs_def P_def split: if_splits prod.splits sum.splits)
  have ts: "ts = map (thread_timings L config ps bs) rs"
    using rt unfolding rs_def by (rule run_threads_timings)
  have ne: "rs \<noteq> []" using threads_of_nonempty [of "num_partitions config" nt] thr by simp
  have idx: "j < unat (num_partitions config)" if "r \<in> set rs" "j \<in> set (range_indices r)" for r j
    using run_threads_indices [OF rt [unfolded rs_def] that(1) [unfolded rs_def] that(2)]
    by (simp add: P_def)
  let ?mo = "\<lambda>r. double_sum (map (\<lambda>i. mapping_ordering_seconds (partition_timings L config ps bs i))
                                    (range_indices r))"
  let ?se = "\<lambda>r. double_sum (map (\<lambda>i. searching_seconds (partition_timings L config ps bs i))
                                    (range_indices r))"
  have img: "mapping_ordering_seconds ` set ts = ?mo ` set rs"
    "searching_seconds ` set ts = ?se ` set rs"
    by (simp_all add: ts image_image thread_timings_def)
  have pos: "\<forall>x\<in>?mo ` set rs. 0 \<le> x" "\<forall>x\<in>?se ` set rs. 0 \<le> x"
    using nonneg idx by (auto intro!: double_sum_nonneg)
  have "mapping_ordering_seconds t = Max (insert 0 (?mo ` set rs))"
    "searching_seconds t = Max (insert 0 (?se ` set rs))"
    using max_timings_fields [of ts fresh_timings]
    by (simp_all add: t img del: Max_insert) (simp_all add: fresh_timings_def)
  moreover have "Max (insert 0 (?mo ` set rs)) = Max (?mo ` set rs)"
    using ne pos(1) by (intro Max_insert_zero) simp_all
  moreover have "Max (insert 0 (?se ` set rs)) = Max (?se ` set rs)"
    using ne pos(2) by (intro Max_insert_zero) simp_all
  ultimately show ?thesis unfolding thr by simp
qed


lemma thread_ranges_numeral:
  "thread_ranges P per (numeral k) start =
     (let end0 = start + per; end1 = (if P < end0 then P else end0)
      in (start, end1) # thread_ranges P per (pred_numeral k) end1)"
  by (simp add: numeral_eq_Suc)

lemma thread_ranges_1:
  "thread_ranges P per 1 start =
     (let end0 = start + per; end1 = (if P < end0 then P else end0) in [(start, end1)])"
  by (simp add: Let_def)

lemma example_build_partitions:
  "build_partitions example_library example_partitions (m_builders example_built)
     example_sub_config 2 =
     (m_builders example_built,
      Inr \<lparr>partitioning_seconds = 0, mapping_ordering_seconds = 1, searching_seconds = 2,
           encoding_seconds = 0\<rparr>)"
  by (simp add: eval_defs example_sub_config_def example_partitions_def example_built_def
      thread_ranges_numeral thread_ranges_1)

lemma example_partition_timings:
  "partition_timings example_library example_sub_config example_partitions
     (m_builders example_built) i =
   \<lparr>partitioning_seconds = 0, mapping_ordering_seconds = 1, searching_seconds = 2,
    encoding_seconds = 0\<rparr>"
  by (simp add: partition_timings_def example_library_def example_single_build_def fresh_timings_def)

theorem build_partitions_timings_witness:
  "build_partitions example_library example_partitions (m_builders example_built)
     example_sub_config 2 =
     (m_builders example_built,
      Inr \<lparr>partitioning_seconds = 0, mapping_ordering_seconds = 1, searching_seconds = 2,
           encoding_seconds = 0\<rparr>) \<and>
   threads_of 2 2 = [(0, 1), (1, 2)] \<and>
   Max ((\<lambda>r. double_sum (map (\<lambda>i. mapping_ordering_seconds
           (partition_timings example_library example_sub_config example_partitions
              (m_builders example_built) i)) (range_indices r))) ` set (threads_of 2 2)) = 1"
proof -
  have nonneg: "\<forall>i<unat (num_partitions example_sub_config).
      0 \<le> mapping_ordering_seconds (partition_timings example_library example_sub_config
              example_partitions (m_builders example_built) i) \<and>
      0 \<le> searching_seconds (partition_timings example_library example_sub_config
              example_partitions (m_builders example_built) i)"
    by (simp add: example_partition_timings)
  have thr: "threads_of 2 2 = [(0, 1), (1, 2)]"
    by (simp add: threads_of_def num_partitions_per_thread_def thread_ranges_numeral
        thread_ranges_1 Let_def)
  from build_partitions_timings [OF example_build_partitions nonneg] example_build_partitions thr
  show ?thesis
    by (simp add: example_sub_config_def example_config_def)
qed

lemma build_range_append:
  "build_range L config ps (xs @ ys) bs t =
     (case build_range L config ps xs bs t of
        (bs1, Inl e) \<Rightarrow> (bs1, Inl e)
      | (bs1, Inr t1) \<Rightarrow> build_range L config ps ys bs1 t1)"
  by (induction xs arbitrary: bs t) (simp_all split: prod.splits sum.splits)

lemma build_range_any_timings:
  "build_range L config ps is bs t = (bs', r) \<Longrightarrow>
     \<exists>r'. build_range L config ps is bs t' = (bs', r') \<and> isl r' = isl r"
proof (induction "is" arbitrary: bs t t')
  case Nil
  then show ?case by auto
next
  case (Cons i "is")
  obtain sb r1 where sub: "single_build_from_hashes L (ps ! i) config (bs ! i) = (sb, r1)"
    by (cases "single_build_from_hashes L (ps ! i) config (bs ! i)")
  show ?case
  proof (cases r1)
    case (Inl e)
    with Cons.prems sub show ?thesis by auto
  next
    case (Inr ti)
    with Cons.prems sub have
      "build_range L config ps is (bs[i := sb])
         (t\<lparr>mapping_ordering_seconds :=
                  d_add (mapping_ordering_seconds t) (mapping_ordering_seconds ti),
               searching_seconds := d_add (searching_seconds t) (searching_seconds ti)\<rparr>) = (bs', r)"
      by simp
    from Cons.IH [OF this] sub Inr show ?thesis by simp
  qed
qed

lemma run_threads_sequential:
  assumes "\<forall>r\<in>set rs. fst r \<le> snd r"
    and "run_threads L config ps rs bs = (bs', r)"
  shows "\<exists>r'. build_range L config ps (concat (map range_indices rs)) bs t0 = (bs', r') \<and>
              isl r' = isl r"
  using assms
proof (induction rs arbitrary: bs r t0)
  case Nil
  then show ?case by auto
next
  case (Cons x rs)
  obtain b e where x: "x = (b, e)" by (cases x)
  have le: "\<not> e < b" using Cons.prems(1) x by (simp add: not_less)
  have ri: "range_indices (b, e) = [unat b..<unat e]" by (simp add: range_indices_def)
  obtain bs1 r1 where first: "build_range L config ps [unat b..<unat e] bs fresh_timings = (bs1, r1)"
    by (cases "build_range L config ps [unat b..<unat e] bs fresh_timings")
  from build_range_any_timings [OF first, of t0] obtain r1' where
    first': "build_range L config ps [unat b..<unat e] bs t0 = (bs1, r1')" and isl: "isl r1' = isl r1"
    by blast
  show ?case
  proof (cases r1)
    case (Inl err)
    with Cons.prems(2) x le first have "bs' = bs1" "isl r" by auto
    moreover from isl Inl obtain err' where "r1' = Inl err'" by (cases r1') auto
    ultimately show ?thesis using first' x
      by (simp add: build_range_append ri)
  next
    case (Inr t1)
    from isl Inr obtain t1' where r1': "r1' = Inr t1'" by (cases r1') auto
    obtain bs2 r2 where rest: "run_threads L config ps rs bs1 = (bs2, r2)"
      by (cases "run_threads L config ps rs bs1")
    have out: "bs' = bs2" "isl r = isl r2"
      using Cons.prems(2) x le first Inr rest by (auto split: sum.splits)
    have rest': "run_threads L config ps rs bs1 = (bs', r2)" using rest out(1) by simp
    have "\<forall>r\<in>set rs. fst r \<le> snd r" using Cons.prems(1) by simp
    from Cons.IH [OF this rest', of t1'] obtain r' where
      "build_range L config ps (concat (map range_indices rs)) bs1 t1' = (bs2, r')" "isl r' = isl r2"
      using out(1) by blast
    then show ?thesis using first' r1' x out
      by (simp add: build_range_append ri)
  qed
qed


lemma thread_ranges_cover:
  assumes "start \<le> P" "unat P + unat per < 2 ^ 64"
  shows "(\<forall>r\<in>set (thread_ranges P per k start). fst r \<le> snd r) \<and>
         concat (map range_indices (thread_ranges P per k start)) =
           [unat start..<min (unat P) (unat start + k * unat per)]"
  using assms(1)
proof (induction k arbitrary: start)
  case 0
  then show ?case by simp
next
  case (Suc k)
  have sP: "unat start \<le> unat P" using Suc.prems by (simp add: word_le_nat_alt)
  then have "unat start + unat per < 2 ^ 64" using assms(2) by simp
  then have e0: "unat (start + per) = unat start + unat per"
    by (simp add: unat_add_lem [THEN iffD1])
  define end1 where "end1 = (if P < start + per then P else start + per)"
  have tr: "thread_ranges P per (Suc k) start = (start, end1) # thread_ranges P per k end1"
    by (simp add: end1_def Let_def)
  have u1: "unat end1 = min (unat P) (unat start + unat per)"
    by (auto simp: end1_def word_less_nat_alt e0)
  have e1P: "end1 \<le> P" and se1: "start \<le> end1"
    using sP by (simp_all add: word_le_nat_alt u1)
  note IH = Suc.IH [OF e1P]
  have ri: "range_indices (start, end1) = [unat start..<unat end1]"
    by (simp add: range_indices_def)
  have "min (unat P) (unat end1 + k * unat per) = min (unat P) (unat start + Suc k * unat per)"
    unfolding u1 by (simp add: min_def)
  moreover have "unat start \<le> unat end1" "unat end1 \<le> min (unat P) (unat end1 + k * unat per)"
    using se1 e1P by (simp_all add: word_le_nat_alt)
  ultimately have "[unat start..<unat end1] @ [unat end1..<min (unat P) (unat end1 + k * unat per)] =
      [unat start..<min (unat P) (unat start + Suc k * unat per)]"
    by (metis le_Suc_ex upt_add_eq_append)
  with IH se1 show ?case unfolding tr by (simp add: ri)
qed

lemma per_thread_covers:
  assumes nt: "1 < nt" and P: "unat P < 2 ^ 63" and T: "unat nt < 2 ^ 63"
  defines "per \<equiv> num_partitions_per_thread P nt"
  shows "unat P + unat per < 2 ^ 64" and "unat P \<le> unat nt * unat per"
proof -
  have nt1: "1 < unat nt" using nt by (simp add: word_less_nat_alt)
  have sum: "unat P + unat nt < 2 ^ 64" using P T by simp
  then have a: "unat (P + nt) = unat P + unat nt" by (simp add: unat_add_lem [THEN iffD1])
  then have "P + nt \<noteq> 0" using nt1 by (metis add_is_0 not_less_zero unat_eq_0 zero_less_one less_trans)
  then have b: "unat (P + nt - 1) = unat P + unat nt - 1" using a by (simp add: unat_minus_one)
  have per: "unat per = (unat P + unat nt - 1) div unat nt"
    by (simp add: per_def num_partitions_per_thread_def unat_div b)
  have "(unat P + unat nt - 1) div unat nt \<le> unat P + unat nt - 1" by (rule div_le_dividend)
  have "(unat P + unat nt - 1) div unat nt \<le> (unat P + unat nt - 1) div 2"
    using nt1 by (intro div_le_mono2) simp_all
  also have "\<dots> < 2 ^ 63" using P T by simp
  finally show "unat P + unat per < 2 ^ 64" using P per by simp
  have "unat P + unat nt - 1 = (unat P + unat nt - 1) div unat nt * unat nt
          + (unat P + unat nt - 1) mod unat nt" by simp
  moreover have "(unat P + unat nt - 1) mod unat nt \<le> unat nt - 1"
    using nt1 by (simp add: less_Suc_eq_le [symmetric])
  ultimately have "unat P \<le> (unat P + unat nt - 1) div unat nt * unat nt" using nt1 by linarith
  then show "unat P \<le> unat nt * unat per" by (simp add: per mult.commute)
qed

lemma build_partitions_sequential:
  assumes P: "unat (num_partitions config) < 2 ^ 63" and T: "unat nt < 2 ^ 63"
    and run: "build_partitions L ps bs config nt = (bs', r)"
  shows "\<exists>r'. build_partitions L ps bs config 1 = (bs', r') \<and> isl r' = isl r"
proof (cases "1 < nt")
  case False
  with run show ?thesis by (auto simp: build_partitions_def)
next
  case True
  show ?thesis
  proof (cases "num_threads config = 1")
    case False
    with run show ?thesis by (auto simp: build_partitions_def)
  next
    case one: True
    define Pn where "Pn = num_partitions config"
    define per where "per = num_partitions_per_thread Pn nt"
    define rs where "rs = thread_ranges Pn per (unat nt) 0"
    obtain bs1 r1 where rt: "run_threads L config ps rs bs = (bs1, r1)"
      by (cases "run_threads L config ps rs bs")
    have out: "bs' = bs1" "isl r = isl r1"
      using run True one rt
      by (auto simp: build_partitions_def rs_def per_def Pn_def split: sum.splits)
    note pc = per_thread_covers [OF True P [folded Pn_def] T, folded per_def]
    from thread_ranges_cover [of 0 Pn per "unat nt", OF _ pc(1)]
    have le: "\<forall>r\<in>set rs. fst r \<le> snd r"
      and cc: "concat (map range_indices rs) = [0..<min (unat Pn) (unat nt * unat per)]"
      by (simp_all add: rs_def)
    have cc': "concat (map range_indices rs) = [0..<unat Pn]" using cc pc(2) by (simp add: min_def)
    from run_threads_sequential [OF le rt, of fresh_timings] obtain r' where
      "build_range L config ps [0..<unat Pn] bs fresh_timings = (bs1, r')" "isl r' = isl r1"
      unfolding cc' by blast
    then show ?thesis using out one by (simp add: build_partitions_def Pn_def)
  qed
qed


lemma build_partitions_thread_invariant:
  assumes P: "unat (num_partitions config) < 2 ^ 63" and T1: "unat nt1 < 2 ^ 63"
    and T2: "unat nt2 < 2 ^ 63"
  shows "fst (build_partitions L ps bs config nt1) = fst (build_partitions L ps bs config nt2) \<and>
         isl (snd (build_partitions L ps bs config nt1)) =
         isl (snd (build_partitions L ps bs config nt2))"
proof -
  obtain b1 r1 where 1: "build_partitions L ps bs config nt1 = (b1, r1)"
    by (cases "build_partitions L ps bs config nt1")
  obtain b2 r2 where 2: "build_partitions L ps bs config nt2 = (b2, r2)"
    by (cases "build_partitions L ps bs config nt2")
  from build_partitions_sequential [OF P T1 1] build_partitions_sequential [OF P T2 2]
  show ?thesis unfolding 1 2 by auto
qed

lemma size_partitions_threads [simp]:
  "size_partitions (config\<lparr>num_threads := T\<rparr>) ps is cum b = size_partitions config ps is cum b"
  by (induction "is" arbitrary: cum b) (simp_all split: option.splits)

lemma partition_config_threads [simp]:
  "partition_config L (config\<lparr>num_threads := T\<rparr>) sd n p = partition_config L config sd n p"
  by (simp add: partition_config_def Let_def split: option.splits)

lemma sized_builder_threads [simp]:
  "sized_builder L n (config\<lparr>num_threads := T\<rparr>) np b = sized_builder L n config np b"
  by (simp add: sized_builder_def)

lemma actual_num_partitions_less:
  "unat p < k \<Longrightarrow> 1 < k \<Longrightarrow> unat (actual_num_partitions mps n p) < k"
  by (simp add: actual_num_partitions_def Let_def)

lemma partition_config_num_partitions:
  "partition_config L config sd n p = Some pc \<Longrightarrow> num_partitions pc = p \<and> num_threads pc = 1"
  by (auto simp: partition_config_def Let_def split: option.splits if_splits)

lemma build_from_hashes_thread_invariant:
  fixes L :: "('k, 'h, 'sk, 'e) library" and hashes :: "nat \<Rightarrow> 'h"
  assumes P: "unat (num_partitions config) < 2 ^ 63" and T1: "unat nt1 < 2 ^ 63"
    and T2: "unat nt2 < 2 ^ 63"
  shows "fst (build_from_hashes L hashes n (config\<lparr>num_threads := nt1\<rparr>) el b) =
         fst (build_from_hashes L hashes n (config\<lparr>num_threads := nt2\<rparr>) el b) \<and>
         isl (snd (build_from_hashes L hashes n (config\<lparr>num_threads := nt1\<rparr>) el b)) =
         isl (snd (build_from_hashes L hashes n (config\<lparr>num_threads := nt2\<rparr>) el b))"
proof (cases "n \<noteq> 0 \<and> check_hash_collision_probability L n = None \<and> num_partitions config \<noteq> 0")
  case False
  then show ?thesis by (auto simp: build_from_hashes_def split: option.splits)
next
  case True
  then have n: "n \<noteq> 0" and chk: "check_hash_collision_probability L n = None"
    and p: "num_partitions config \<noteq> 0" by simp_all
  define np where "np = actual_num_partitions (min_partition_size L) n (num_partitions config)"
  define ps where "ps = map (partition_keys L np (map hashes [0..<unat n])) [0..<unat np]"
  obtain b2 r where sz: "size_partitions config ps [0..<unat np] 0 (sized_builder L n config np b) = (b2, r)"
    by (cases "size_partitions config ps [0..<unat np] 0 (sized_builder L n config np b)")
  have unf: "build_from_hashes L hashes n (config\<lparr>num_threads := T\<rparr>) el b =
      (case r of Inl e \<Rightarrow> (b2, Inl e)
       | Inr u \<Rightarrow>
        (case partition_config L config (seed config) n np of
           None \<Rightarrow> (b2, Inl undefined_behaviour)
         | Some pc \<Rightarrow>
        (case build_partitions L ps (m_builders b2) pc T of
           (builders, Inl e) \<Rightarrow> (b2\<lparr>m_builders := builders\<rparr>, Inl e)
         | (builders, Inr t) \<Rightarrow>
             (b2\<lparr>m_builders := builders\<rparr>,
              Inr (fresh_timings\<lparr>partitioning_seconds := el,
                     mapping_ordering_seconds := mapping_ordering_seconds t,
                     searching_seconds := searching_seconds t\<rparr>)))))" for T
  proof -
    have p': "num_partitions (config\<lparr>num_threads := T\<rparr>) \<noteq> 0" using p by simp
    have sz': "size_partitions (config\<lparr>num_threads := T\<rparr>)
        (map (partition_keys L (actual_num_partitions (min_partition_size L) n
               (num_partitions (config\<lparr>num_threads := T\<rparr>))) (map hashes [0..<unat n]))
           [0..<unat (actual_num_partitions (min_partition_size L) n
               (num_partitions (config\<lparr>num_threads := T\<rparr>)))])
        [0..<unat (actual_num_partitions (min_partition_size L) n
               (num_partitions (config\<lparr>num_threads := T\<rparr>)))] 0
        (sized_builder L n (config\<lparr>num_threads := T\<rparr>)
           (actual_num_partitions (min_partition_size L) n
               (num_partitions (config\<lparr>num_threads := T\<rparr>))) b) = (b2, r)"
      using sz by (simp add: np_def ps_def)
    show ?thesis
      unfolding build_from_hashes_unfold [OF n chk p' sz']
      by (cases r; cases "partition_config L config (seed config) n np")
         (simp_all add: np_def ps_def)
  qed
  show ?thesis
  proof (cases r)
    case (Inl e)
    then show ?thesis by (simp add: unf)
  next
    case (Inr u)
    show ?thesis
    proof (cases "partition_config L config (seed config) n np")
      case None
      with Inr show ?thesis by (simp add: unf)
    next
      case (Some pc)
      have "unat np < 2 ^ 63" unfolding np_def using P by (rule actual_num_partitions_less) simp
      then have "unat (num_partitions pc) < 2 ^ 63"
        using partition_config_num_partitions [OF Some] by simp
      from build_partitions_thread_invariant [OF this T1 T2, of L ps "m_builders b2"]
      show ?thesis using Inr Some by (simp add: unf split: prod.splits sum.splits) (auto simp: isl_def)
    qed
  qed
qed


lemma encode_range_append:
  "encode_range M L builder config el (xs @ ys) parts =
     (case encode_range M L builder config el xs parts of
        (parts1, Inl e) \<Rightarrow> (parts1, Inl e)
      | (parts1, Inr u) \<Rightarrow> encode_range M L builder config el ys parts1)"
  by (induction xs arbitrary: parts) (simp_all add: Let_def split: prod.splits sum.splits)

lemma run_encode_threads_sequential:
  assumes "\<forall>r\<in>set rs. fst r \<le> snd r"
    and "run_encode_threads M L builder config el rs parts = (parts', r)"
  shows "\<exists>r'. encode_range M L builder config el (concat (map range_indices rs)) parts = (parts', r') \<and>
              isl r' = isl r"
  using assms
proof (induction rs arbitrary: parts r)
  case Nil
  then show ?case by auto
next
  case (Cons x rs)
  obtain b e where x: "x = (b, e)" by (cases x)
  have le: "\<not> e < b" using Cons.prems(1) x by (simp add: not_less)
  have ri: "range_indices (b, e) = [unat b..<unat e]" by (simp add: range_indices_def)
  obtain parts1 r1 where
    first: "encode_range M L builder config el [unat b..<unat e] parts = (parts1, r1)"
    by (cases "encode_range M L builder config el [unat b..<unat e] parts")
  show ?case
  proof (cases r1)
    case (Inl err)
    with Cons.prems(2) x le first have "parts' = parts1" "isl r" by auto
    then show ?thesis using first Inl x by (simp add: encode_range_append ri)
  next
    case (Inr u)
    with Cons.prems(2) x le first have
      rest: "run_encode_threads M L builder config el rs parts1 = (parts', r)" by simp
    have "\<forall>r\<in>set rs. fst r \<le> snd r" using Cons.prems(1) by simp
    from Cons.IH [OF this rest] show ?thesis using first Inr x
      by (simp add: encode_range_append ri)
  qed
qed

lemma single_phf_build_threads [simp]:
  "single_phf_build M L sb (config\<lparr>num_threads := T\<rparr>) el ph = single_phf_build M L sb config el ph"
  by (simp add: single_phf_build_def)

lemma encode_range_threads [simp]:
  "encode_range M L builder (config\<lparr>num_threads := T\<rparr>) el is parts =
   encode_range M L builder config el is parts"
  by (induction "is" arbitrary: parts) (simp_all add: Let_def split: prod.splits sum.splits)

lemma run_encode_threads_threads [simp]:
  "run_encode_threads M L builder (config\<lparr>num_threads := T\<rparr>) el rs parts =
   run_encode_threads M L builder config el rs parts"
proof (induction rs arbitrary: parts)
  case Nil
  show ?case by simp
next
  case (Cons x rs)
  obtain b e where x: "x = (b, e)" by (cases x)
  show ?case unfolding x by (simp add: Cons.IH split: prod.splits sum.splits)
qed

lemma encode_parallel_sequential:
  assumes P: "unat np < 2 ^ 63" and T: "unat nt < 2 ^ 63" and nt: "1 < nt"
    and run: "run_encode_threads M L builder config el
                (thread_ranges np (num_partitions_per_thread np nt) (unat nt) 0) parts = (parts', r)"
  shows "\<exists>r'. encode_range M L builder config el [0..<unat np] parts = (parts', r') \<and>
              isl r' = isl r"
proof -
  define per where "per = num_partitions_per_thread np nt"
  define rs where "rs = thread_ranges np per (unat nt) 0"
  note pc = per_thread_covers [OF nt P T, folded per_def]
  from thread_ranges_cover [of 0 np per "unat nt", OF _ pc(1)]
  have le: "\<forall>r\<in>set rs. fst r \<le> snd r"
    and cc: "concat (map range_indices rs) = [0..<min (unat np) (unat nt * unat per)]"
    by (simp_all add: rs_def)
  have cc': "concat (map range_indices rs) = [0..<unat np]" using cc pc(2) by (simp add: min_def)
  from run_encode_threads_sequential [OF le run [folded per_def, folded rs_def]]
  show ?thesis unfolding cc' .
qed

lemma partitioned_phf_build_thread_invariant:
  assumes P: "unat (m_num_partitions builder) < 2 ^ 63" and T1: "unat nt1 < 2 ^ 63"
    and T2: "unat nt2 < 2 ^ 63"
  shows "fst (partitioned_phf_build M L builder (config\<lparr>num_threads := nt1\<rparr>) el pf) =
         fst (partitioned_phf_build M L builder (config\<lparr>num_threads := nt2\<rparr>) el pf) \<and>
         isl (snd (partitioned_phf_build M L builder (config\<lparr>num_threads := nt1\<rparr>) el pf)) =
         isl (snd (partitioned_phf_build M L builder (config\<lparr>num_threads := nt2\<rparr>) el pf))"
proof -
  define np where "np = m_num_partitions builder"
  define pf1 where "pf1 = pf\<lparr>p_seed := m_seed builder, p_num_keys := m_num_keys builder,
                      p_table_size := m_table_size builder, p_bucketer := m_bucketer builder,
                      p_partitions := resize (unat np) (new_partition L) (p_partitions pf)\<rparr>"
  define enc where "enc = (\<lambda>T. if 1 < T
                 then run_encode_threads M L builder config el
                        (thread_ranges np (num_partitions_per_thread np T) (unat T) 0)
                        (p_partitions pf1)
                 else encode_range M L builder config el [0..<unat np] (p_partitions pf1))"
  have seq: "\<exists>r'. encode_range M L builder config el [0..<unat np] (p_partitions pf1) = (parts', r') \<and>
                 isl r' = isl r"
    if "unat T < 2 ^ 63" "enc T = (parts', r)" for T parts' r
  proof (cases "1 < T")
    case True
    with that(2) encode_parallel_sequential [OF P [folded np_def] that(1) True] show ?thesis
      by (simp add: enc_def)
  next
    case False
    with that(2) show ?thesis by (simp add: enc_def)
  qed
  have inv: "fst (enc nt1) = fst (enc nt2) \<and> isl (snd (enc nt1)) = isl (snd (enc nt2))"
  proof -
    obtain a1 r1 where 1: "enc nt1 = (a1, r1)" by (cases "enc nt1")
    obtain a2 r2 where 2: "enc nt2 = (a2, r2)" by (cases "enc nt2")
    from seq [OF T1 1] seq [OF T2 2] show ?thesis unfolding 1 2 by auto
  qed
  have unf: "partitioned_phf_build M L builder (config\<lparr>num_threads := T\<rparr>) el pf =
     (if M \<and> \<not> minimal_output config
      then (pf, Inl (runtime_error
              ''Cannot build partitioned_phf<..., ..., true> with minimal_output=false''))
      else if \<not> M \<and> minimal_output config
      then (pf, Inl (runtime_error
              ''Cannot build partitioned_phf<..., ..., false> with minimal_output=true''))
      else case enc T of
             (parts, Inl e) \<Rightarrow> (pf1\<lparr>p_partitions := parts\<rparr>, Inl e)
           | (parts, Inr u) \<Rightarrow> (pf1\<lparr>p_partitions := parts\<rparr>, Inr el))" for T
    by (simp add: partitioned_phf_build_def Let_def enc_def pf1_def np_def)
  obtain a1 r1 where 1: "enc nt1 = (a1, r1)" by (cases "enc nt1")
  obtain a2 r2 where 2: "enc nt2 = (a2, r2)" by (cases "enc nt2")
  from inv show ?thesis unfolding unf 1 2 by (cases r1; cases r2) auto
qed


lemma threads_seed_commute:
  "config\<lparr>num_threads := T, seed := sd\<rparr> = config\<lparr>seed := sd, num_threads := T\<rparr>"
  for config :: build_configuration
  by (rule build_configuration.equality) simp_all

lemma build_from_keys_threads:
  "build_from_keys L keys n (config\<lparr>num_threads := T\<rparr>) el b =
   build_from_hashes L
     (\<lambda>i. hash L (keys i)
        (seed (if seed config = invalid_seed L then config\<lparr>seed := random_value L\<rparr> else config)))
     n ((if seed config = invalid_seed L then config\<lparr>seed := random_value L\<rparr> else config)
          \<lparr>num_threads := T\<rparr>) el b"
  by (simp add: build_from_keys_def Let_def threads_seed_commute)

lemma build_in_internal_memory_thread_invariant:
  fixes L :: "('k, 'h, 'sk, 'e) library" and keys :: "nat \<Rightarrow> 'k"
  assumes P: "unat (num_partitions config) < 2 ^ 63" and T1: "unat nt1 < 2 ^ 63"
    and T2: "unat nt2 < 2 ^ 63"
  shows "fst (build_in_internal_memory M L keys n (config\<lparr>num_threads := nt1\<rparr>) e1 e2 b pf) =
         fst (build_in_internal_memory M L keys n (config\<lparr>num_threads := nt2\<rparr>) e1 e2 b pf) \<and>
         isl (snd (build_in_internal_memory M L keys n (config\<lparr>num_threads := nt1\<rparr>) e1 e2 b pf)) =
         isl (snd (build_in_internal_memory M L keys n (config\<lparr>num_threads := nt2\<rparr>) e1 e2 b pf))"
proof -
  define cfg where
    "cfg = (if seed config = invalid_seed L then config\<lparr>seed := random_value L\<rparr> else config)"
  define hashes where "hashes = (\<lambda>i. hash L (keys i) (seed cfg))"
  have P': "unat (num_partitions cfg) < 2 ^ 63" using P by (simp add: cfg_def)
  have bk: "build_from_keys L keys n (config\<lparr>num_threads := T\<rparr>) e1 b =
      build_from_hashes L hashes n (cfg\<lparr>num_threads := T\<rparr>) e1 b" for T
    unfolding build_from_keys_threads cfg_def hashes_def ..
  note inv = build_from_hashes_thread_invariant [OF P' T1 T2, of L hashes n e1 b]
  obtain b1 r1 where 1: "build_from_hashes L hashes n (cfg\<lparr>num_threads := nt1\<rparr>) e1 b = (b1, r1)"
    by (cases "build_from_hashes L hashes n (cfg\<lparr>num_threads := nt1\<rparr>) e1 b")
  obtain b2 r2 where 2: "build_from_hashes L hashes n (cfg\<lparr>num_threads := nt2\<rparr>) e1 b = (b2, r2)"
    by (cases "build_from_hashes L hashes n (cfg\<lparr>num_threads := nt2\<rparr>) e1 b")
  from inv have eq: "b1 = b2" "isl r1 = isl r2" unfolding 1 2 by simp_all
  have 2: "build_from_hashes L hashes n (cfg\<lparr>num_threads := nt2\<rparr>) e1 b = (b1, r2)"
    using 2 eq(1) by simp
  show ?thesis
  proof (cases r1)
    case (Inl e)
    with eq obtain e' where "r2 = Inl e'" by (cases r2) auto
    with Inl show ?thesis by (simp add: build_in_internal_memory_def bk 1 2)
  next
    case (Inr t1)
    with eq obtain t2 where r2: "r2 = Inr t2" by (cases r2) auto
    have ok: "n \<noteq> 0 \<and> check_hash_collision_probability L n = None \<and>
        num_partitions (cfg\<lparr>num_threads := nt1\<rparr>) \<noteq> 0"
      using build_from_hashes_Inr [OF 1 [unfolded Inr]] by simp
    from build_from_hashes_fields [of n L "cfg\<lparr>num_threads := nt1\<rparr>" hashes e1 b] ok
    have "m_num_partitions b1 =
        actual_num_partitions (min_partition_size L) n (num_partitions cfg)"
      by (simp add: 1)
    then have "unat (m_num_partitions b1) < 2 ^ 63"
      using actual_num_partitions_less [OF P', of "min_partition_size L" n] by simp
    note inv2 = partitioned_phf_build_thread_invariant [OF this T1 T2, of M L config e2 pf]
    obtain p1 q1 where 3: "partitioned_phf_build M L b1 (config\<lparr>num_threads := nt1\<rparr>) e2 pf = (p1, q1)"
      by (cases "partitioned_phf_build M L b1 (config\<lparr>num_threads := nt1\<rparr>) e2 pf")
    obtain p2 q2 where 4: "partitioned_phf_build M L b1 (config\<lparr>num_threads := nt2\<rparr>) e2 pf = (p2, q2)"
      by (cases "partitioned_phf_build M L b1 (config\<lparr>num_threads := nt2\<rparr>) e2 pf")
    from inv2 show ?thesis
      unfolding 3 4 using Inr r2
      by (cases q1; cases q2) (simp_all add: build_in_internal_memory_def bk 1 2 3 4)
  qed
qed

lemma build_range_success_iff:
  assumes "distinct is"
  shows "(\<exists>t. build_range L config ps is bs t0 = (bs', Inr t)) =
         ((\<forall>i\<in>set is. \<not> isl (snd (single_build_from_hashes L (ps ! i) config (bs ! i)))) \<and>
          length bs' = length bs \<and>
          (\<forall>j<length bs. bs' ! j =
             (if j \<in> set is then fst (single_build_from_hashes L (ps ! j) config (bs ! j))
              else bs ! j)))"
  using assms
proof (induction "is" arbitrary: bs t0)
  case Nil
  show ?case by (auto simp: list_eq_iff_nth_eq)
next
  case (Cons i "is")
  obtain sb r1 where sub: "single_build_from_hashes L (ps ! i) config (bs ! i) = (sb, r1)"
    by (cases "single_build_from_hashes L (ps ! i) config (bs ! i)")
  have d: "distinct is" and ni: "i \<notin> set is" using Cons.prems by simp_all
  show ?case
  proof (cases r1)
    case (Inl e)
    with sub show ?thesis by auto
  next
    case (Inr ti)
    let ?t1 = "t0\<lparr>mapping_ordering_seconds :=
                  d_add (mapping_ordering_seconds t0) (mapping_ordering_seconds ti),
               searching_seconds := d_add (searching_seconds t0) (searching_seconds ti)\<rparr>"
    have step: "build_range L config ps (i # is) bs t0 = build_range L config ps is (bs[i := sb]) ?t1"
      using sub Inr by simp
    have same: "bs[i := sb] ! k = bs ! k" if "k \<in> set is" for k
    proof -
      have "i \<noteq> k" using that ni by auto
      then show ?thesis by (rule nth_list_update_neq)
    qed
    have A: "(\<forall>k\<in>set is. \<not> isl (snd (single_build_from_hashes L (ps ! k) config (bs[i := sb] ! k)))) =
             (\<forall>k\<in>set (i # is). \<not> isl (snd (single_build_from_hashes L (ps ! k) config (bs ! k))))"
      using sub Inr by (simp add: same)
    have B: "(\<forall>j<length (bs[i := sb]). bs' ! j =
             (if j \<in> set is
              then fst (single_build_from_hashes L (ps ! j) config (bs[i := sb] ! j))
              else bs[i := sb] ! j)) =
          (\<forall>j<length bs. bs' ! j =
             (if j \<in> set (i # is) then fst (single_build_from_hashes L (ps ! j) config (bs ! j))
              else bs ! j))"
    proof (intro all_cong1 imp_cong refl, simp)
      fix j assume "j < length bs"
      then show "(bs' ! j = (if j \<in> set is
              then fst (single_build_from_hashes L (ps ! j) config (bs[i := sb] ! j))
              else bs[i := sb] ! j)) =
          (bs' ! j = (if j \<in> set (i # is) then fst (single_build_from_hashes L (ps ! j) config (bs ! j))
              else bs ! j))"
        using ni sub by (auto simp: same nth_list_update)
    qed
    show ?thesis unfolding step Cons.IH [OF d] A B by simp
  qed
qed

lemma build_range_any_order:
  assumes "distinct is" "distinct js" "set is = set js"
  shows "(\<exists>t. build_range L config ps is bs t0 = (bs', Inr t)) =
         (\<exists>t. build_range L config ps js bs t1 = (bs', Inr t))"
  unfolding build_range_success_iff [OF assms(1)] build_range_success_iff [OF assms(2)] assms(3) ..

lemma same_success:
  assumes "fst x = fst y \<and> isl (snd x) = isl (snd y)"
  shows "(\<exists>t. x = (a, Inr t)) = (\<exists>t. y = (a, Inr t))"
  using assms by (cases x; cases y; cases "snd x"; cases "snd y") auto

text \<open>
  C6. For partition and thread counts below \<open>2^63\<close> (so that
  \<^verbatim>\<open>num_partitions + num_threads - 1\<close> and \<^verbatim>\<open>begin + num_partitions_per_thread\<close> do not wrap
  around): \<^verbatim>\<open>build_partitions\<close> with \<open>T1\<close> threads returns with builders \<open>bs'\<close> exactly when the
  sequential run does; so does building the partitions once each in any order; and
  \<^verbatim>\<open>build_from_hashes\<close> and \<^verbatim>\<open>build_in_internal_memory\<close> return the same builder (with its
  offsets) and the same function object for any two thread counts. The reported
  timings are not part of the statement.
\<close>

theorem thread_count_invariance:
  fixes L :: "('k, 'h, 'sk, 'e) library" and keys :: "nat \<Rightarrow> 'k" and hashes :: "nat \<Rightarrow> 'h"
  assumes "unat (num_partitions config) < 2 ^ 63" and "unat T1 < 2 ^ 63" and "unat T2 < 2 ^ 63"
  shows "((\<exists>t. build_partitions L ps bs config T1 = (bs', Inr t)) =
          (\<exists>t. build_partitions L ps bs config 1 = (bs', Inr t))) \<and>
         (distinct order \<and> set order = {0..<unat (num_partitions config)} \<and>
          num_threads config = 1 \<longrightarrow>
            (\<exists>t. build_range L config ps order bs fresh_timings = (bs', Inr t)) =
            (\<exists>t. build_partitions L ps bs config 1 = (bs', Inr t))) \<and>
         ((\<exists>t. build_from_hashes L hashes n (config\<lparr>num_threads := T1\<rparr>) el b = (b', Inr t)) =
          (\<exists>t. build_from_hashes L hashes n (config\<lparr>num_threads := T2\<rparr>) el b = (b', Inr t))) \<and>
         ((\<exists>t. build_in_internal_memory Minimal L keys n (config\<lparr>num_threads := T1\<rparr>)
                 el el2 b pf = (pf', Inr t)) =
          (\<exists>t. build_in_internal_memory Minimal L keys n (config\<lparr>num_threads := T2\<rparr>)
                 el el2 b pf = (pf', Inr t)))"
proof (intro conjI impI)
  have one: "unat (1 :: u64) < 2 ^ 63" by simp
  assume "distinct order \<and> set order = {0..<unat (num_partitions config)} \<and>
          num_threads config = 1"
  then show "(\<exists>t. build_range L config ps order bs fresh_timings = (bs', Inr t)) =
            (\<exists>t. build_partitions L ps bs config 1 = (bs', Inr t))"
    using build_range_any_order [of order "[0..<unat (num_partitions config)]" L config ps bs
        fresh_timings bs' fresh_timings]
    by (simp add: build_partitions_def)
next
  have one: "unat (1 :: u64) < 2 ^ 63" by simp
  show "(\<exists>t. build_partitions L ps bs config T1 = (bs', Inr t)) =
        (\<exists>t. build_partitions L ps bs config 1 = (bs', Inr t))"
    by (rule same_success, rule build_partitions_thread_invariant [OF assms(1,2) one])
  show "(\<exists>t. build_from_hashes L hashes n (config\<lparr>num_threads := T1\<rparr>) el b = (b', Inr t)) =
        (\<exists>t. build_from_hashes L hashes n (config\<lparr>num_threads := T2\<rparr>) el b = (b', Inr t))"
    by (rule same_success, rule build_from_hashes_thread_invariant [OF assms])
  show "(\<exists>t. build_in_internal_memory Minimal L keys n (config\<lparr>num_threads := T1\<rparr>)
                 el el2 b pf = (pf', Inr t)) =
        (\<exists>t. build_in_internal_memory Minimal L keys n (config\<lparr>num_threads := T2\<rparr>)
                 el el2 b pf = (pf', Inr t))"
    by (rule same_success, rule build_in_internal_memory_thread_invariant [OF assms])
qed



theorem thread_count_invariance_witness:
  "unat (num_partitions example_config) < 2 ^ 63 \<and> unat (2 :: u64) < 2 ^ 63 \<and>
   unat (1 :: u64) < 2 ^ 63 \<and>
   (\<exists>t. build_from_hashes example_library example_hashes 2 (example_config\<lparr>num_threads := 2\<rparr>) 0
          example_builder = (example_built, Inr t)) \<and>
   (\<exists>t. build_from_hashes example_library example_hashes 2 (example_config\<lparr>num_threads := 1\<rparr>) 0
          example_builder = (example_built, Inr t))"
proof -
  have b: "unat (num_partitions example_config) < 2 ^ 63" "unat (2 :: u64) < 2 ^ 63"
    "unat (1 :: u64) < 2 ^ 63"
    by (simp_all add: example_config_def)
  have c: "example_config\<lparr>num_threads := 1\<rparr> = example_config" by (simp add: example_config_def)
  have "\<exists>t. build_from_hashes example_library example_hashes 2 (example_config\<lparr>num_threads := 1\<rparr>) 0
          example_builder = (example_built, Inr t)"
    unfolding c using example_run by blast
  with thread_count_invariance [OF b, where L = example_library and hashes = example_hashes
      and n = 2 and el = 0 and b = example_builder and b' = example_built] b
  show ?thesis by blast
qed

section \<open>The query of a partitioned function\<close>

lemma bij_betw_tiling:
  fixes sz :: "nat \<Rightarrow> nat" and part :: "'a \<Rightarrow> nat" and g :: "'a \<Rightarrow> nat"
  assumes "\<forall>i<N. bij_betw g {k \<in> S. part k = i} {0..<sz i}"
  shows "bij_betw (\<lambda>k. (\<Sum>j<part k. sz j) + g k) {k \<in> S. part k < N} {0..<(\<Sum>j<N. sz j)}"
  using assms
proof (induction N)
  case 0
  then show ?case by (simp add: bij_betw_def)
next
  case (Suc N)
  let ?F = "\<lambda>k. (\<Sum>j<part k. sz j) + g k"
  have IH: "bij_betw ?F {k \<in> S. part k < N} {0..<(\<Sum>j<N. sz j)}"
    using Suc.IH Suc.prems by simp
  have bN: "bij_betw g {k \<in> S. part k = N} {0..<sz N}" using Suc.prems by simp
  have "bij_betw (\<lambda>k. (\<Sum>j<N. sz j) + g k) {k \<in> S. part k = N}
          {(\<Sum>j<N. sz j)..<(\<Sum>j<N. sz j) + sz N}"
  proof -
    have "bij_betw (\<lambda>v. (\<Sum>j<N. sz j) + v) {0..<sz N} {(\<Sum>j<N. sz j)..<(\<Sum>j<N. sz j) + sz N}"
      by (rule bij_betw_byWitness [where f' = "\<lambda>v. v - (\<Sum>j<N. sz j)"]) auto
    from bij_betw_trans [OF bN this] show ?thesis by (simp add: comp_def)
  qed
  then have top: "bij_betw ?F {k \<in> S. part k = N} {(\<Sum>j<N. sz j)..<(\<Sum>j<N. sz j) + sz N}"
    by (rule bij_betw_cong [THEN iffD1, rotated]) simp
  have "bij_betw ?F ({k \<in> S. part k < N} \<union> {k \<in> S. part k = N})
          ({0..<(\<Sum>j<N. sz j)} \<union> {(\<Sum>j<N. sz j)..<(\<Sum>j<N. sz j) + sz N})"
    by (rule bij_betw_combine [OF IH top]) auto
  moreover have "{k \<in> S. part k < N} \<union> {k \<in> S. part k = N} = {k \<in> S. part k < Suc N}"
    by auto
  moreover have "{0..<(\<Sum>j<N. sz j)} \<union> {(\<Sum>j<N. sz j)..<(\<Sum>j<N. sz j) + sz N}
                  = {0..<(\<Sum>j<Suc N. sz j)}"
    by auto
  ultimately show ?case by simp
qed


lemma build_minimal_offsets:
  fixes L :: "('k, 'h, 'sk, 'e) library" and hashes :: "nat \<Rightarrow> 'h"
  assumes run: "build_from_hashes L hashes n config el b = (b', Inr t)"
    and min: "minimal_output config" and i: "i < unat (m_num_partitions b')"
  shows "unat (m_offsets b' ! i) =
           (\<Sum>j<i. length (partition_keys L (m_num_partitions b') (map hashes [0..<unat n]) j))"
proof -
  define np where "np = m_num_partitions b'"
  define P where "P = partition_keys L np (map hashes [0..<unat n])"
  define ps where "ps = map P [0..<unat np]"
  note bs = build_from_hashes_sizes [OF run, folded np_def, folded P_def, folded ps_def]
  have i': "i < unat np" using i by (simp add: np_def)
  have "(\<Sum>j<i. length (P j)) \<le> (\<Sum>j<unat np. length (P j))"
    using i' by (intro sum_mono2) auto
  also have "\<dots> < 2 ^ 64" unfolding bs(7) using unsigned_less [of n] by simp
  finally have small: "(\<Sum>j<i. length (P j)) < 2 ^ 64" .
  have "m_offsets b' ! i = (\<Sum>j<i. of_nat (length (ps ! j)))"
    using bs(6) [OF i'] min by (simp add: increment_of_def)
  also have "\<dots> = (\<Sum>j<i. of_nat (length (P j)))"
    using i' by (intro sum.cong) (simp_all add: ps_def)
  also have "\<dots> = of_nat (\<Sum>j<i. length (P j))" by (rule sum_of_nat_word)
  finally have e: "m_offsets b' ! i = of_nat (\<Sum>j<i. length (P j))" .
  have "unat (m_offsets b' ! i) = (\<Sum>j<i. length (P j))"
    by (rule of_nat_inverse [OF e [symmetric]]) (use small in simp)
  then show ?thesis by (simp add: P_def np_def)
qed

lemma encode_range_untouched:
  "encode_range M L builder config el is parts = (parts', r) \<Longrightarrow>
     length parts' = length parts \<and> (\<forall>j. j \<notin> set is \<longrightarrow> parts' ! j = parts ! j)"
proof (induction "is" arbitrary: parts)
  case Nil
  then show ?case by auto
next
  case (Cons i "is")
  show ?case
  proof (cases "length (m_offsets builder) \<le> i \<or> length (m_builders builder) \<le> i")
    case True
    with Cons.prems show ?thesis by auto
  next
    case False
    define p1 where "p1 = (parts ! i)\<lparr>part_offset := m_offsets builder ! i\<rparr>"
    obtain ph r1 where sb: "single_phf_build M L (m_builders builder ! i) config el (part_f p1) = (ph, r1)"
      by (cases "single_phf_build M L (m_builders builder ! i) config el (part_f p1)")
    show ?thesis
    proof (cases r1)
      case (Inl e)
      with Cons.prems False sb show ?thesis by (auto simp: p1_def Let_def)
    next
      case (Inr u)
      with Cons.prems False sb have
        "encode_range M L builder config el is (parts[i := p1\<lparr>part_f := ph\<rparr>]) = (parts', r)"
        by (simp add: p1_def Let_def)
      from Cons.IH [OF this] show ?thesis by auto
    qed
  qed
qed

lemma encode_range_offsets:
  "encode_range M L builder config el is parts = (parts', Inr u) \<Longrightarrow> i \<in> set is \<Longrightarrow>
     i < length parts \<Longrightarrow> part_offset (parts' ! i) = m_offsets builder ! i \<and>
     i < length (m_offsets builder) \<and> i < length (m_builders builder)"
proof (induction "is" arbitrary: parts)
  case Nil
  then show ?case by simp
next
  case (Cons k "is")
  have ok: "\<not> (length (m_offsets builder) \<le> k \<or> length (m_builders builder) \<le> k)"
    using Cons.prems(1) by (auto split: if_splits)
  define p1 where "p1 = (parts ! k)\<lparr>part_offset := m_offsets builder ! k\<rparr>"
  obtain ph r1 where sb: "single_phf_build M L (m_builders builder ! k) config el (part_f p1) = (ph, r1)"
    by (cases "single_phf_build M L (m_builders builder ! k) config el (part_f p1)")
  from Cons.prems(1) ok sb obtain u1 where r1: "r1 = Inr u1"
    by (cases r1) (auto simp: p1_def Let_def)
  have rest: "encode_range M L builder config el is (parts[k := p1\<lparr>part_f := ph\<rparr>]) = (parts', Inr u)"
    using Cons.prems(1) ok sb r1 by (simp add: p1_def Let_def)
  show ?case
  proof (cases "i \<in> set is")
    case True
    from Cons.IH [OF rest True] Cons.prems(3) show ?thesis by simp
  next
    case False
    with Cons.prems(2) have ik: "i = k" by simp
    from encode_range_untouched [OF rest] False
    have "parts' ! i = (parts[k := p1\<lparr>part_f := ph\<rparr>]) ! i" by simp
    then show ?thesis using ik Cons.prems(3) ok by (simp add: p1_def)
  qed
qed


lemma partitioned_phf_build_Inr:
  assumes run: "partitioned_phf_build M L builder config el pf = (pf', Inr u)"
    and P: "unat (m_num_partitions builder) < 2 ^ 63" and T: "unat (num_threads config) < 2 ^ 63"
  shows "M = minimal_output config \<and> p_seed pf' = m_seed builder \<and>
         p_num_keys pf' = m_num_keys builder \<and> p_table_size pf' = m_table_size builder \<and>
         p_bucketer pf' = m_bucketer builder \<and>
         length (p_partitions pf') = unat (m_num_partitions builder) \<and>
         (\<forall>i<unat (m_num_partitions builder).
            part_offset (p_partitions pf' ! i) = m_offsets builder ! i)"
proof -
  have M: "M = minimal_output config"
    using run by (auto simp: partitioned_phf_build_def split: if_splits)
  have one: "unat (1 :: u64) < 2 ^ 63" by simp
  have id: "config\<lparr>num_threads := num_threads config\<rparr> = config" by simp
  from partitioned_phf_build_thread_invariant [OF P T one, of M L config el pf] run
  obtain u' where seq: "partitioned_phf_build M L builder (config\<lparr>num_threads := 1\<rparr>) el pf = (pf', Inr u')"
    unfolding id
    by (cases "partitioned_phf_build M L builder (config\<lparr>num_threads := 1\<rparr>) el pf";
        cases "snd (partitioned_phf_build M L builder (config\<lparr>num_threads := 1\<rparr>) el pf)") auto
  define np where "np = m_num_partitions builder"
  define pf1 where "pf1 = pf\<lparr>p_seed := m_seed builder, p_num_keys := m_num_keys builder,
                      p_table_size := m_table_size builder, p_bucketer := m_bucketer builder,
                      p_partitions := resize (unat np) (new_partition L) (p_partitions pf)\<rparr>"
  define parts0 where "parts0 = resize (unat np) (new_partition L) (p_partitions pf)"
  obtain parts r where er: "encode_range M L builder config el [0..<unat np] parts0 = (parts, r)"
    by (cases "encode_range M L builder config el [0..<unat np] parts0")
  have er1: "encode_range M L builder (config\<lparr>num_threads := 1\<rparr>) el [0..<unat np] parts0 = (parts, r)"
    using er by simp
  from seq M er1 have r: "r = Inr ()" and pf': "pf' = pf1\<lparr>p_partitions := parts\<rparr>"
    by (cases r; simp add: partitioned_phf_build_def Let_def np_def [symmetric] pf1_def
        parts0_def [symmetric])+
  have len0: "length parts0 = unat np" by (simp add: parts0_def resize_def)
  have len: "length parts = unat np" using encode_range_untouched [OF er] len0 by simp
  have "part_offset (parts ! i) = m_offsets builder ! i" if "i < unat np" for i
    using encode_range_offsets [OF er [unfolded r], of i] that len0 by simp
  then show ?thesis using M len by (simp add: pf' pf1_def np_def)
qed

text \<open>
  C1. Take a function built with \<open>Minimal = true\<close> by \<^verbatim>\<open>build_in_internal_memory\<close> over
  the keys \<open>keys 0, \<dots>, keys (n - 1)\<close>, and write \<open>P i\<close> for the hashes of partition \<open>i\<close>.
  If the single function of every partition \<open>i\<close> maps the keys of that partition one
  to one onto \<open>[0, length (P i))\<close>, then: every key falls in one partition of the function
  and its query returns the offset of that partition plus the position in its single
  function; the sizes \<open>length (P i)\<close> sum to \<open>n\<close>; the offset of partition \<open>i\<close> is the sum
  of the sizes of the partitions before it; and the query is a bijection from the key
  set onto \<open>[0, n)\<close>. The counts of partitions and threads are below \<open>2^63\<close>, so that the
  index arithmetic of the threads does not wrap around.
\<close>

theorem partitioned_minimal_bijection:
  fixes L :: "('k, 'h, 'sk, 'e) library" and keys :: "nat \<Rightarrow> 'k"
  assumes run: "build_in_internal_memory True L keys n config el el2 b pf = (pf', Inr t)"
    and P63: "unat (num_partitions config) < 2 ^ 63" and T63: "unat (num_threads config) < 2 ^ 63"
  defines "S \<equiv> keys ` {..<unat n}"
  defines "h \<equiv> \<lambda>k. hash L k (p_seed pf')"
  defines "part \<equiv> \<lambda>k. unat (uniform_bucket (p_bucketer pf') (mix L (h k)))"
  defines "P \<equiv> partition_keys L (ub_num_buckets (p_bucketer pf')) (map (\<lambda>j. h (keys j)) [0..<unat n])"
  assumes single: "\<forall>i<length (p_partitions pf').
      bij_betw (\<lambda>k. unat (single_phf_position True L (part_f (p_partitions pf' ! i)) (h k)))
        {k \<in> S. part k = i} {0..<length (P i)}"
  shows "(\<forall>k\<in>S. part k < length (p_partitions pf') \<and>
            partitioned_phf_apply True L pf' k =
              Inr (part_offset (p_partitions pf' ! part k) +
                   single_phf_position True L (part_f (p_partitions pf' ! part k)) (h k))) \<and>
         (\<Sum>i<length (p_partitions pf'). length (P i)) = unat n \<and>
         (\<forall>i<length (p_partitions pf').
            unat (part_offset (p_partitions pf' ! i)) = (\<Sum>j<i. length (P j))) \<and>
         bij_betw (\<lambda>k. unat (projr (partitioned_phf_apply True L pf' k))) S {0..<unat n}"
proof -
  define cfg where
    "cfg = (if seed config = invalid_seed L then config\<lparr>seed := random_value L\<rparr> else config)"
  define hashes where "hashes = (\<lambda>i. hash L (keys i) (seed cfg))"
  from run obtain b1 t1 u where
    bk: "build_from_keys L keys n config el b = (b1, Inr t1)"
    and pb: "partitioned_phf_build True L b1 config el2 pf = (pf', Inr u)"
    by (auto simp: build_in_internal_memory_def split: prod.splits sum.splits)
  have bh: "build_from_hashes L hashes n cfg el b = (b1, Inr t1)"
    using bk by (simp add: build_from_keys_def Let_def cfg_def hashes_def)
  define np where "np = m_num_partitions b1"
  note bs = build_from_hashes_sizes [OF bh, folded np_def]
  have np63: "unat np < 2 ^ 63"
    unfolding bs(1) using P63 by (intro actual_num_partitions_less) (simp_all add: cfg_def)
  note pf = partitioned_phf_build_Inr [OF pb np63 [unfolded np_def] T63, folded np_def]
  have min: "minimal_output cfg" using pf by (simp add: cfg_def)
  have ok: "n \<noteq> 0 \<and> check_hash_collision_probability L n = None \<and> num_partitions cfg \<noteq> 0"
    using build_from_hashes_Inr [OF bh] by simp
  from build_from_hashes_fields [of n L cfg hashes el b] ok bh
  have fl: "m_bucketer b1 = uniform_bucketer_init np" "m_seed b1 = seed cfg"
    by (simp_all add: np_def)
  have sd: "p_seed pf' = seed cfg" and bkt: "p_bucketer pf' = uniform_bucketer_init np"
    and len: "length (p_partitions pf') = unat np"
    using pf fl by simp_all
  have hh: "(\<lambda>j. h (keys j)) = hashes" by (simp add: h_def hashes_def sd)
  have Pdef: "P = partition_keys L np (map hashes [0..<unat n])"
    by (simp add: P_def bkt uniform_bucketer_init_def hh)
  have total: "(\<Sum>i<unat np. length (P i)) = unat n" using bs(7) by (simp add: Pdef)
  have off: "unat (part_offset (p_partitions pf' ! i)) = (\<Sum>j<i. length (P j))" if "i < unat np" for i
    using build_minimal_offsets [OF bh min, of i] that pf by (simp add: np_def Pdef)
  have part_lt: "part k < unat np" for k
    unfolding part_def bkt by (rule uniform_bucket_less [OF bs(2)])
  let ?g = "\<lambda>k. unat (single_phf_position True L (part_f (p_partitions pf' ! part k)) (h k))"
  have gb: "bij_betw ?g {k \<in> S. part k = i} {0..<length (P i)}" if "i < unat np" for i
  proof -
    have "bij_betw (\<lambda>k. unat (single_phf_position True L (part_f (p_partitions pf' ! i)) (h k)))
        {k \<in> S. part k = i} {0..<length (P i)}"
      using single that len by simp
    then show ?thesis by (rule bij_betw_cong [THEN iffD1, rotated]) simp
  qed
  have tiling: "bij_betw (\<lambda>k. (\<Sum>j<part k. length (P j)) + ?g k) {k \<in> S. part k < unat np}
      {0..<(\<Sum>j<unat np. length (P j))}"
    by (rule bij_betw_tiling) (use gb in simp)
  have Sall: "{k \<in> S. part k < unat np} = S" using part_lt by auto
  have app: "partitioned_phf_apply True L pf' k =
      Inr (part_offset (p_partitions pf' ! part k) +
           single_phf_position True L (part_f (p_partitions pf' ! part k)) (h k))" for k
    using part_lt [of k] len
    by (simp add: partitioned_phf_apply_def partitioned_phf_position_def Let_def part_def h_def)
  have val: "unat (projr (partitioned_phf_apply True L pf' k)) = (\<Sum>j<part k. length (P j)) + ?g k"
    if k: "k \<in> S" for k
  proof -
    have "?g k \<in> {0..<length (P (part k))}"
      using gb [OF part_lt [of k]] k by (auto simp: bij_betw_def)
    then have g: "?g k < length (P (part k))" by simp
    have "(\<Sum>j<part k. length (P j)) + length (P (part k)) = (\<Sum>j<Suc (part k). length (P j))"
      by simp
    also have "\<dots> \<le> (\<Sum>j<unat np. length (P j))"
      using part_lt [of k] by (intro sum_mono2) auto
    also have "\<dots> < 2 ^ 64" unfolding total using unsigned_less [of n] by simp
    finally have "unat (part_offset (p_partitions pf' ! part k)) + ?g k < 2 ^ 64"
      using g off [OF part_lt [of k]] by simp
    then have "unat (part_offset (p_partitions pf' ! part k) +
        single_phf_position True L (part_f (p_partitions pf' ! part k)) (h k)) =
        unat (part_offset (p_partitions pf' ! part k)) + ?g k"
      by (simp add: unat_add_lem [THEN iffD1])
    then show ?thesis by (simp add: app off [OF part_lt [of k]])
  qed
  have "bij_betw (\<lambda>k. unat (projr (partitioned_phf_apply True L pf' k))) S {0..<unat n}"
    using tiling unfolding Sall total
    by (rule bij_betw_cong [THEN iffD1, rotated]) (simp add: val)
  with app part_lt total off len show ?thesis by simp
qed

lemma example_keys_hashes:
  "(\<lambda>i. hash example_library i 0) = example_hashes"
  by (simp add: example_library_def example_hashes_def fun_eq_iff)

lemma example_function_run:
  "build_in_internal_memory True example_library id 2 example_config 0 0 example_builder example_phf =
     (example_function,
      Inr \<lparr>partitioning_seconds = 0, mapping_ordering_seconds = 2, searching_seconds = 4,
           encoding_seconds = 0\<rparr>)"
proof -
  have cfg: "seed example_config = 0" "invalid_seed example_library = - 1"
    "minimal_output example_config" "num_threads example_config = 1"
    by (simp_all add: example_config_def example_library_def)
  have keys: "build_from_keys example_library id 2 example_config 0 example_builder =
      (example_built,
       Inr \<lparr>partitioning_seconds = 0, mapping_ordering_seconds = 2, searching_seconds = 4,
            encoding_seconds = 0\<rparr>)"
    by (simp add: build_from_keys_def cfg example_keys_hashes example_run)
  have enc: "partitioned_phf_build True example_library example_built example_config 0 example_phf =
      (example_function, Inr 0)"
    by (simp add: partitioned_phf_build_def cfg single_phf_build_def example_built_def
        example_phf_def example_function_def resize_def Let_def upt_rec replicate_numeral
        example_library_def)
  show ?thesis by (simp add: build_in_internal_memory_def keys enc)
qed

lemma example_part:
  "unat (uniform_bucket (uniform_bucketer_init 2) (mix example_library (hash example_library k 0))) =
     k mod 2"
proof -
  have "k mod 18446744073709551616 mod 2 = k mod 2"
    by (rule mod_mod_cancel) simp
  then show ?thesis
    by (simp add: uniform_bucket_def uniform_bucketer_init_def fastmod_u64_def example_library_def
        unat_mod unat_of_nat)
qed

lemma example_position:
  "single_phf_position True example_library
     \<lparr>f_seed = 0, f_num_keys = 1, f_table_size = 1, f_M = computeM_u64 1, f_bucketer = (),
      f_pilots = [0], f_free_slots = []\<rparr> h = 0"
  by (simp add: single_phf_position_def fastmod_u64_def example_library_def Let_def)

theorem partitioned_minimal_bijection_witness:
  "build_in_internal_memory True example_library id 2 example_config 0 0 example_builder example_phf =
     (example_function,
      Inr \<lparr>partitioning_seconds = 0, mapping_ordering_seconds = 2, searching_seconds = 4,
           encoding_seconds = 0\<rparr>) \<and>
   partitioned_phf_apply True example_library example_function 0 = Inr 0 \<and>
   partitioned_phf_apply True example_library example_function 1 = Inr 1 \<and>
   bij_betw (\<lambda>k. unat (projr (partitioned_phf_apply True example_library example_function k)))
     {0, 1} {0..<2}"
proof -
  have P: "unat (num_partitions example_config) < 2 ^ 63" and T: "unat (num_threads example_config) < 2 ^ 63"
    by (simp_all add: example_config_def)
  have fn: "p_seed example_function = 0" "p_bucketer example_function = uniform_bucketer_init 2"
    "length (p_partitions example_function) = 2"
    "ub_num_buckets (uniform_bucketer_init 2) = 2"
    by (simp_all add: example_function_def uniform_bucketer_init_def)
  have S: "id ` {..<unat (2 :: u64)} = {0, 1 :: nat}" by auto
  have sets: "{k \<in> {0, 1 :: nat}. k mod 2 = 0} = {0}" "{k \<in> {0, 1 :: nat}. k mod 2 = Suc 0} = {1}"
    by auto
  have single: "\<forall>i<length (p_partitions example_function).
      bij_betw (\<lambda>k. unat (single_phf_position True example_library
                   (part_f (p_partitions example_function ! i))
                   (hash example_library k (p_seed example_function))))
        {k \<in> id ` {..<unat (2 :: u64)}.
           unat (uniform_bucket (p_bucketer example_function)
             (mix example_library (hash example_library k (p_seed example_function)))) = i}
        {0..<length (partition_keys example_library (ub_num_buckets (p_bucketer example_function))
           (map (\<lambda>j. hash example_library (id j) (p_seed example_function)) [0..<unat (2 :: u64)]) i)}"
  proof (intro allI impI)
    fix i assume "i < length (p_partitions example_function)"
    then have "i = 0 \<or> i = Suc 0" unfolding fn by auto
    then show "bij_betw (\<lambda>k. unat (single_phf_position True example_library
                   (part_f (p_partitions example_function ! i))
                   (hash example_library k (p_seed example_function))))
        {k \<in> id ` {..<unat (2 :: u64)}.
           unat (uniform_bucket (p_bucketer example_function)
             (mix example_library (hash example_library k (p_seed example_function)))) = i}
        {0..<length (partition_keys example_library (ub_num_buckets (p_bucketer example_function))
           (map (\<lambda>j. hash example_library (id j) (p_seed example_function)) [0..<unat (2 :: u64)]) i)}"
      unfolding fn S example_part
      by (auto simp: example_keys_hashes example_partition_keys sets example_function_def
          example_position bij_betw_def inj_on_def)
  qed
  from partitioned_minimal_bijection [OF example_function_run P T single]
  have "\<forall>k\<in>id ` {..<unat (2 :: u64)}.
          partitioned_phf_apply True example_library example_function k =
            Inr (part_offset (p_partitions example_function !
                   unat (uniform_bucket (p_bucketer example_function)
                     (mix example_library (hash example_library k (p_seed example_function))))) +
                 single_phf_position True example_library
                   (part_f (p_partitions example_function !
                      unat (uniform_bucket (p_bucketer example_function)
                        (mix example_library (hash example_library k (p_seed example_function))))))
                   (hash example_library k (p_seed example_function)))"
    and "bij_betw (\<lambda>k. unat (projr (partitioned_phf_apply True example_library example_function k)))
          (id ` {..<unat (2 :: u64)}) {0..<unat (2 :: u64)}"
    by blast+
  then show ?thesis
    unfolding fn S example_part
    by (simp add: example_function_run) (simp add: example_function_def example_position)
qed

end
